theory Spec2Isabelle
  imports Complex_Main
begin

section \<open>Errors as values\<close>

text \<open>
  The exceptions of the Python source are values of \<open>py_error\<close>; a fallible function
  returns \<open>py_error + 'a\<close> with \<open>Inl\<close> for the raised exception.
  \<open>FloatNonFinite\<close> is not a Python exception: floating-point numbers are modelled by
  the reals, and it marks the points where the float computation of the source would
  produce \<open>inf\<close> or \<open>nan\<close> (a division by zero, a mean of nothing, a square root of
  a negative number), which the reals cannot follow.
\<close>

datatype py_error = KeyError | ValueError | ZeroDivisionError | IndexError | TypeError
  | RuntimeError | AttributeError | LinAlgError | FloatNonFinite

definition bind_err :: "py_error + 'a \<Rightarrow> ('a \<Rightarrow> py_error + 'b) \<Rightarrow> py_error + 'b" where
  "bind_err m f = (case m of Inl e \<Rightarrow> Inl e | Inr x \<Rightarrow> f x)"

section \<open>Weight computer: \<open>compute_weights\<close>\<close>

text \<open>
  \<open>np.outer(a, b)\<close>: the matrix of all products, one row per element of \<open>a\<close>.
\<close>

definition np_outer :: "real list \<Rightarrow> real list \<Rightarrow> real list list" where
  "np_outer a b = map (\<lambda>x. map (\<lambda>y. x * y) b) a"

text \<open>
  \<open>compute_weights(years, target_year, doys, target_doy, alpha_year=0.5, alpha_day=0.2)\<close>.
  Years and days of the year are integer arrays; \<open>W / W.sum()\<close> divides every element by
  the sum (the arrays being empty, nothing is divided).
\<close>

definition alpha_year_default :: real where "alpha_year_default = 5 / 10"
definition alpha_day_default :: real where "alpha_day_default = 2 / 10"

definition compute_weights ::
  "int list \<Rightarrow> int \<Rightarrow> int list \<Rightarrow> int \<Rightarrow> real \<Rightarrow> real \<Rightarrow>
     real list \<times> real list \<times> real list list" where
  "compute_weights years target_year doys target_doy alpha_year alpha_day =
     (let dist_year = map (\<lambda>y. \<bar>y - target_year\<bar>) years;
          W_year0 = map (\<lambda>d. exp (- alpha_year * real_of_int d)) dist_year;
          W_year = map (\<lambda>x. x / sum_list W_year0) W_year0;
          dist_day = map (\<lambda>d. \<bar>d - target_doy\<bar>) doys;
          W_day0 = map (\<lambda>d. exp (- alpha_day * real_of_int d)) dist_day;
          W_day = map (\<lambda>x. x / sum_list W_day0) W_day0;
          W_combined = np_outer W_year W_day
      in (W_year, W_day, W_combined))"

section \<open>Arrays\<close>

text \<open>
  A numpy array of two or three dimensions is its shape together with its elements as
  nested lists, outermost axis first; the shape is kept beside the elements because an
  array with an axis of length zero still has the lengths of its other axes.
  \<open>wf_array2\<close> and \<open>wf_array3\<close> say that the nested lists have the lengths the shape
  gives, as every numpy array has.
\<close>

type_synonym array2 = "(nat \<times> nat) \<times> real list list"
type_synonym array3 = "(nat \<times> nat \<times> nat) \<times> real list list list"

definition wf_array2 :: "array2 \<Rightarrow> bool" where
  "wf_array2 A = (case A of ((n0, n1), X) \<Rightarrow> length X = n0 \<and> (\<forall>r \<in> set X. length r = n1))"

definition wf_array3 :: "array3 \<Rightarrow> bool" where
  "wf_array3 A = (case A of ((n0, n1, n2), X) \<Rightarrow>
     length X = n0 \<and> (\<forall>yr \<in> set X. length yr = n1 \<and> (\<forall>day \<in> set yr. length day = n2)))"

text \<open>
  The slice \<open>xs[lo:hi]\<close> for non-negative bounds: the bounds are clamped to the length.
\<close>

definition py_slice :: "nat \<Rightarrow> nat \<Rightarrow> 'a list \<Rightarrow> 'a list" where
  "py_slice lo hi xs = take (hi - lo) (drop lo xs)"

section \<open>State vector builder: \<open>build_state_vectors\<close>\<close>

text \<open>
  \<open>np.zeros\<close> raises \<open>ValueError\<close> on the negative dimension
  \<open>n_days - 2 * days_window\<close>. The two loops assign the flattened window to
  \<open>X_state[y_idx, d_idx - days_window, :]\<close>; they are folds over the two ranges, the
  array being passed on updated.
\<close>

definition build_state_vectors :: "array3 \<Rightarrow> nat \<Rightarrow> py_error + array3" where
  "build_state_vectors X_raw days_window =
     (case X_raw of ((n_years, n_days, n_vars), X) \<Rightarrow>
        if n_days < 2 * days_window then Inl ValueError
        else
          let n_valid_days = n_days - 2 * days_window;
              state_dim = (2 * days_window + 1) * n_vars;
              X_state0 = replicate n_years (replicate n_valid_days (replicate state_dim 0));
              X_state =
                fold (\<lambda>y_idx S.
                  fold (\<lambda>d_idx S.
                    let window_slice =
                          py_slice (d_idx - days_window) (d_idx + days_window + 1) (X ! y_idx)
                    in S[y_idx := (S ! y_idx)[d_idx - days_window := concat window_slice]])
                    [days_window ..< n_days - days_window] S)
                  [0 ..< n_years] X_state0
          in Inr ((n_years, n_valid_days, state_dim), X_state))"

section \<open>Weighted PCA engine: \<open>weighted_pca\<close>\<close>

subsection \<open>The numpy operations it calls\<close>

text \<open>
  Transposition, the matrix product \<open>A @ B\<close> (\<open>np_matmul\<close> raises \<open>ValueError\<close> when
  the inner dimensions differ; \<open>matmul\<close> is its value when they agree) and
  \<open>np.average(X, axis=0, weights=w)\<close>, which raises \<open>ValueError\<close> when the length of
  the weights is not the number of rows and \<open>ZeroDivisionError\<close> when the weights sum to
  zero, and otherwise divides the weighted column sums by the sum of the weights.
\<close>

definition np_transpose :: "array2 \<Rightarrow> array2" where
  "np_transpose A = (case A of ((n, m), X) \<Rightarrow>
     ((m, n), map (\<lambda>j. map (\<lambda>i. X ! i ! j) [0 ..< n]) [0 ..< m]))"

definition matmul :: "array2 \<Rightarrow> array2 \<Rightarrow> array2" where
  "matmul A B = (case A of ((n, k), X) \<Rightarrow> case B of ((k', m), Y) \<Rightarrow>
     ((n, m), map (\<lambda>a. map (\<lambda>b. sum_list (map (\<lambda>i. X ! a ! i * Y ! i ! b) [0 ..< k])) [0 ..< m]) [0 ..< n]))"

definition np_matmul :: "array2 \<Rightarrow> array2 \<Rightarrow> py_error + array2" where
  "np_matmul A B = (if snd (fst A) \<noteq> fst (fst B) then Inl ValueError else Inr (matmul A B))"

definition weighted_mean :: "array2 \<Rightarrow> real list \<Rightarrow> real list" where
  "weighted_mean A wgt = (case A of ((n, m), X) \<Rightarrow>
     map (\<lambda>j. sum_list (map (\<lambda>i. X ! i ! j * wgt ! i) [0 ..< n]) / sum_list wgt) [0 ..< m])"

definition np_average_axis0 :: "array2 \<Rightarrow> real list \<Rightarrow> py_error + real list" where
  "np_average_axis0 A wgt =
     (if length wgt \<noteq> fst (fst A) then Inl ValueError
      else if sum_list wgt = 0 then Inl ZeroDivisionError
      else Inr (weighted_mean A wgt))"

text \<open>\<open>np.cumsum\<close>, and \<open>np.argsort\<close> as a stable sort of the indices by their elements.\<close>

fun cumsum_from :: "real \<Rightarrow> real list \<Rightarrow> real list" where
  "cumsum_from acc [] = []"
| "cumsum_from acc (x # xs) = (acc + x) # cumsum_from (acc + x) xs"

definition np_cumsum :: "real list \<Rightarrow> real list" where
  "np_cumsum xs = cumsum_from 0 xs"

definition np_argsort :: "real list \<Rightarrow> nat list" where
  "np_argsort xs = sort_key (\<lambda>i. xs ! i) [0 ..< length xs]"

text \<open>
  \<open>np.searchsorted(arr, key)\<close> with the default \<open>side='left'\<close> is numpy's binary search:
  it halves the interval \<open>[min_idx, max_idx)\<close>, going right when \<open>arr[mid] < key\<close>. On an
  array that is not sorted it still returns, with an index that need not be the first
  one whose element reaches the key.
\<close>

function searchsorted_loop :: "real list \<Rightarrow> real \<Rightarrow> nat \<Rightarrow> nat \<Rightarrow> nat" where
  "searchsorted_loop arr key min_idx max_idx =
     (if min_idx < max_idx then
        (let mid = min_idx + (max_idx - min_idx) div 2
         in if arr ! mid < key then searchsorted_loop arr key (mid + 1) max_idx
            else searchsorted_loop arr key min_idx mid)
      else min_idx)"
  by pat_completeness auto
termination
  by (relation "measure (\<lambda>(arr, key, min_idx, max_idx). max_idx - min_idx)") auto

declare searchsorted_loop.simps [simp del]

definition np_searchsorted :: "real list \<Rightarrow> real \<Rightarrow> nat" where
  "np_searchsorted arr key = searchsorted_loop arr key 0 (length arr)"

subsection \<open>The steps of \<open>weighted_pca\<close>\<close>

text \<open>
  The local variables of the source, each as a function of what it is computed from:
  \<open>Xc = X - mu\<close>, \<open>Xc_w = Xc * w[:, None]\<close>, \<open>Sigma = Xc.T @ Xc_w\<close> symmetrised as
  \<open>0.5 * (Sigma + Sigma.T)\<close>; the eigenvalues and the eigenvector columns reordered by
  \<open>idx = np.argsort(eigvals)[::-1]\<close>; \<open>cumvar\<close>, the cumulative sum of
  \<open>eigvals / (total_var + 1e-16)\<close>; the floor \<open>eps_reg\<close>; and \<open>eigvecs[:, :k]\<close>.
\<close>

definition pca_center :: "array2 \<Rightarrow> real list \<Rightarrow> array2" where
  "pca_center A mu = (case A of ((n, m), X) \<Rightarrow>
     ((n, m), map (\<lambda>i. map (\<lambda>j. X ! i ! j - mu ! j) [0 ..< m]) [0 ..< n]))"

definition pca_scale_rows :: "array2 \<Rightarrow> real list \<Rightarrow> array2" where
  "pca_scale_rows A w = (case A of ((n, m), X) \<Rightarrow>
     ((n, m), map (\<lambda>i. map (\<lambda>j. X ! i ! j * w ! i) [0 ..< m]) [0 ..< n]))"

definition symmetrize :: "array2 \<Rightarrow> array2" where
  "symmetrize A = (case A of ((n, m), S) \<Rightarrow>
     ((n, m), map (\<lambda>a. map (\<lambda>b. (5 / 10) * (S ! a ! b + S ! b ! a)) [0 ..< m]) [0 ..< n]))"

definition pca_sigma :: "array2 \<Rightarrow> real list \<Rightarrow> real list \<Rightarrow> array2" where
  "pca_sigma X w mu =
     (let Xc = pca_center X mu;
          Xc_w = pca_scale_rows Xc w;
          Sigma = matmul (np_transpose Xc) Xc_w
      in symmetrize Sigma)"

definition pca_sorted_eigvals :: "real list \<Rightarrow> real list" where
  "pca_sorted_eigvals eigvals0 = (let idx = rev (np_argsort eigvals0) in map (\<lambda>i. eigvals0 ! i) idx)"

definition pca_sorted_eigvecs :: "real list \<Rightarrow> array2 \<Rightarrow> array2" where
  "pca_sorted_eigvecs eigvals0 eigvecs0 =
     (let idx = rev (np_argsort eigvals0)
      in case eigvecs0 of ((r, c), V) \<Rightarrow> ((r, length idx), map (\<lambda>row. map (\<lambda>i. row ! i) idx) V))"

definition pca_cumvar :: "real list \<Rightarrow> real list" where
  "pca_cumvar eigvals =
     (let total_var = sum_list eigvals;
          explained_ratio = map (\<lambda>e. e / (total_var + 1 / 10 ^ 16)) eigvals
      in np_cumsum explained_ratio)"

definition pca_eps_reg :: "real \<Rightarrow> real" where
  "pca_eps_reg total_var = (if total_var > 0 then 1 / 10 ^ 8 * total_var else 1 / 10 ^ 8)"

definition take_columns :: "nat \<Rightarrow> array2 \<Rightarrow> array2" where
  "take_columns k A = (case A of ((r, c), V) \<Rightarrow> ((r, min k c), map (take k) V))"

definition var_threshold_default :: real where
  "var_threshold_default = 95 / 100"

text \<open>
  \<open>weighted_pca(X, weights, var_threshold=0.95)\<close>. The symmetric eigensolver
  \<open>np.linalg.eigh\<close> is a parameter \<open>eigh\<close>: it returns the eigenvalues and a matrix whose
  columns are the eigenvectors, or raises. The floats are reals here, so the two
  divisions whose divisor can be zero end the model with \<open>FloatNonFinite\<close> where numpy
  would go on with \<open>inf\<close> or \<open>nan\<close>: \<open>weights / weights.sum()\<close> for weights that are not
  empty and sum to zero (numpy still raises \<open>ValueError\<close> from \<open>np.average\<close> when their
  length is wrong), and \<open>eigvals / (total_var + 1e-16)\<close>.
\<close>

definition normalized :: "real list \<Rightarrow> real list" where
  "normalized weights = map (\<lambda>x. x / sum_list weights) weights"

definition weighted_pca ::
  "(array2 \<Rightarrow> py_error + real list \<times> array2) \<Rightarrow> array2 \<Rightarrow> real list \<Rightarrow> real \<Rightarrow>
     py_error + real list \<times> array2 \<times> real list \<times> nat" where
  "weighted_pca eigh X weights var_threshold =
     (case X of ((n_samples, n_features), Xd) \<Rightarrow>
        if weights \<noteq> [] \<and> sum_list weights = 0 then
          (if length weights \<noteq> n_samples then Inl ValueError else Inl FloatNonFinite)
        else
          let w = normalized weights in
          bind_err (np_average_axis0 X w) (\<lambda>mu.
          bind_err (eigh (pca_sigma X w mu)) (\<lambda>(eigvals0, eigvecs0).
            let eigvals = pca_sorted_eigvals eigvals0;
                eigvecs = pca_sorted_eigvecs eigvals0 eigvecs0;
                total_var = sum_list eigvals
            in if total_var + 1 / 10 ^ 16 = 0 then Inl FloatNonFinite
               else
                 let cumvar = pca_cumvar eigvals;
                     k = np_searchsorted cumvar var_threshold + 1;
                     k = max 1 (min k n_features);
                     eigvals_k = take k eigvals;
                     eigvecs_k = take_columns k eigvecs;
                     eps_reg = pca_eps_reg total_var;
                     eigvals_k = map (\<lambda>e. max e eps_reg) eigvals_k
                 in Inr (eigvals_k, eigvecs_k, mu, k))))"

text \<open>
  What an exact symmetric eigensolver returns for the matrix \<open>A\<close>: as many eigenvalues as
  \<open>A\<close> has rows and a matrix of the shape of \<open>A\<close> whose column \<open>i\<close> is an eigenvector,
  not the zero vector, for eigenvalue \<open>i\<close>.
\<close>

definition column :: "array2 \<Rightarrow> nat \<Rightarrow> real list" where
  "column A j = (case A of ((n, m), V) \<Rightarrow> map (\<lambda>i. V ! i ! j) [0 ..< n])"

definition is_eigenpair :: "array2 \<Rightarrow> real \<Rightarrow> real list \<Rightarrow> bool" where
  "is_eigenpair A lam v = (case A of ((n, m), S) \<Rightarrow>
     length v = m \<and> (\<exists>b < m. v ! b \<noteq> 0)
     \<and> (\<forall>a < n. sum_list (map (\<lambda>b. S ! a ! b * v ! b) [0 ..< m]) = lam * v ! a))"

definition eigh_exact :: "array2 \<Rightarrow> real list \<times> array2 \<Rightarrow> bool" where
  "eigh_exact A r = (case r of (eigvals0, eigvecs0) \<Rightarrow>
     length eigvals0 = fst (fst A) \<and> fst eigvecs0 = fst A \<and> wf_array2 eigvecs0
     \<and> (\<forall>i < length eigvals0. is_eigenpair A (eigvals0 ! i) (column eigvecs0 i)))"

text \<open>
  Sample inputs: two samples of two features with the eigendecomposition of their
  covariance, and a constant history with the eigendecomposition of the zero matrix.
\<close>

definition example_X :: array2 where
  "example_X = ((2, 2), [[0, 0], [2, 0]])"

definition example_eigh :: "array2 \<Rightarrow> py_error + real list \<times> array2" where
  "example_eigh A = Inr ([0, 1], ((2, 2), [[0, 1], [1, 0]]))"

definition constant_X :: array2 where
  "constant_X = ((2, 1), [[1], [1]])"

definition zero_eigh :: "array2 \<Rightarrow> py_error + real list \<times> array2" where
  "zero_eigh A = Inr ([0], ((1, 1), [[1]]))"

section \<open>Ensemble sampler: \<open>generate_ensemble\<close> and \<open>apply_constraints\<close>\<close>

text \<open>
  The global generator of \<open>np.random\<close> is a state of type \<open>'g\<close> passed through the calls;
  \<open>gauss\<close> draws one standard normal deviate from it and returns the new state.
  \<open>np.random.normal(loc=0.0, scale=pc_std[None, :], size=(N_mc, n_components))\<close> fills
  the array row by row with \<open>loc + scale[j] * gauss()\<close>.
\<close>

fun normal_row :: "('g \<Rightarrow> real \<times> 'g) \<Rightarrow> real list \<Rightarrow> 'g \<Rightarrow> real list \<times> 'g" where
  "normal_row gauss [] g = ([], g)"
| "normal_row gauss (s # scale) g =
     (case gauss g of (z, g1) \<Rightarrow>
        case normal_row gauss scale g1 of (row, g2) \<Rightarrow> ((0 + s * z) # row, g2))"

fun normal_rows :: "('g \<Rightarrow> real \<times> 'g) \<Rightarrow> nat \<Rightarrow> real list \<Rightarrow> 'g \<Rightarrow> real list list \<times> 'g" where
  "normal_rows gauss 0 scale g = ([], g)"
| "normal_rows gauss (Suc n) scale g =
     (case normal_row gauss scale g of (row, g1) \<Rightarrow>
        case normal_rows gauss n scale g1 of (rows, g2) \<Rightarrow> (row # rows, g2))"

text \<open>
  \<open>X + mu[None, :]\<close> with numpy's broadcasting (a length that is 1 stretches; lengths
  that differ otherwise raise \<open>ValueError\<close>), and the column slice \<open>X[:, lo:hi]\<close>.
\<close>

definition np_add_row :: "array2 \<Rightarrow> real list \<Rightarrow> py_error + array2" where
  "np_add_row A mu = (case A of ((n, d), X) \<Rightarrow>
     if length mu = d then
       Inr ((n, d), map (\<lambda>i. map (\<lambda>j. X ! i ! j + mu ! j) [0 ..< d]) [0 ..< n])
     else if length mu = 1 then
       Inr ((n, d), map (\<lambda>i. map (\<lambda>j. X ! i ! j + mu ! 0) [0 ..< d]) [0 ..< n])
     else if d = 1 then
       Inr ((n, length mu), map (\<lambda>i. map (\<lambda>j. X ! i ! 0 + mu ! j) [0 ..< length mu]) [0 ..< n])
     else Inl ValueError)"

definition slice_columns :: "nat \<Rightarrow> nat \<Rightarrow> array2 \<Rightarrow> array2" where
  "slice_columns lo hi A = (case A of ((n, c), X) \<Rightarrow>
     ((n, min hi c - min lo c), map (py_slice lo hi) X))"

text \<open>
  \<open>apply_constraints\<close>: the dictionary \<open>clip_dict\<close> in its order, an absent bound being
  \<open>None\<close>. \<open>samples[:, vi]\<close> raises \<open>IndexError\<close> when the array has no column \<open>vi\<close>;
  the array is updated in place, which is the array passed on here.
\<close>

definition clip_dict :: "(nat \<times> real option \<times> real option) list" where
  "clip_dict = [(0, Some 0, None), (1, Some (- 80), Some 60), (2, Some 0, Some 100),
     (3, Some 0, Some 100), (4, Some 0, None), (5, Some 0, None), (6, Some (- 80), Some 60)]"

definition clip_bounds :: "real option \<Rightarrow> real option \<Rightarrow> real \<Rightarrow> real" where
  "clip_bounds lo hi x =
     (let x1 = (case lo of None \<Rightarrow> x | Some l \<Rightarrow> max x l)
      in case hi of None \<Rightarrow> x1 | Some h \<Rightarrow> min x1 h)"

definition clip_row :: "nat \<times> real option \<times> real option \<Rightarrow> real list \<Rightarrow> real list" where
  "clip_row entry row = (case entry of (vi, lo, hi) \<Rightarrow> row[vi := clip_bounds lo hi (row ! vi)])"

definition apply_clip :: "nat \<times> real option \<times> real option \<Rightarrow> array2 \<Rightarrow> py_error + array2" where
  "apply_clip entry samples = (case entry of (vi, lo, hi) \<Rightarrow> case samples of ((n, c), X) \<Rightarrow>
     if lo = None \<and> hi = None then Inr samples
     else if c \<le> vi then Inl IndexError
     else Inr ((n, c), map (clip_row entry) X))"

definition apply_constraints :: "array2 \<Rightarrow> py_error + array2" where
  "apply_constraints samples =
     fold (\<lambda>entry acc. bind_err acc (apply_clip entry)) clip_dict (Inr samples)"

text \<open>
  \<open>generate_ensemble\<close>. \<open>np.sqrt\<close> of a negative eigenvalue is \<open>nan\<close>
  (\<open>FloatNonFinite\<close>). \<open>center_samples\<close> is a view of \<open>X_samples\<close>, clipped in place
  and returned. The generator state after the draws is returned with the result.
\<close>

definition pc_samples :: "('g \<Rightarrow> real \<times> 'g) \<Rightarrow> 'g \<Rightarrow> real list \<Rightarrow> nat \<Rightarrow> array2 \<times> 'g" where
  "pc_samples gauss g eigvals_k N_mc =
     (let n_components = length eigvals_k;
          pc_std = map sqrt eigvals_k
      in case normal_rows gauss N_mc pc_std g of
           (rows, g1) \<Rightarrow> (((N_mc, n_components), rows), g1))"

definition generate_ensemble ::
  "('g \<Rightarrow> real \<times> 'g) \<Rightarrow> 'g \<Rightarrow> real list \<Rightarrow> array2 \<Rightarrow> real list \<Rightarrow> nat \<Rightarrow> nat \<Rightarrow> nat \<Rightarrow>
     (py_error + array2) \<times> 'g" where
  "generate_ensemble gauss g eigvals_k eigvecs_k mu n_vars days_window N_mc =
     (if \<exists>e \<in> set eigvals_k. e < 0 then (Inl FloatNonFinite, g)
      else case pc_samples gauss g eigvals_k N_mc of (pc, g1) \<Rightarrow>
        (bind_err (np_matmul pc (np_transpose eigvecs_k)) (\<lambda>X_centered_samples.
         bind_err (np_add_row X_centered_samples mu) (\<lambda>X_samples.
           let center_slot = days_window;
               start_idx = center_slot * n_vars;
               end_idx = start_idx + n_vars;
               center_samples = slice_columns start_idx end_idx X_samples
           in apply_constraints center_samples)), g1))"

text \<open>
  For the statements: the clipping of one value of variable \<open>vi\<close>, the bounds the
  dictionary documents, the clipping of a whole sample, and the reconstructed state
  vector \<open>mu + V_k z\<close>.
\<close>

definition clip_value :: "nat \<Rightarrow> real \<Rightarrow> real" where
  "clip_value vi x = (case map_of clip_dict vi of None \<Rightarrow> x | Some (lo, hi) \<Rightarrow> clip_bounds lo hi x)"

definition within_bounds :: "nat \<Rightarrow> real \<Rightarrow> bool" where
  "within_bounds vi x = (case map_of clip_dict vi of None \<Rightarrow> True
     | Some (lo, hi) \<Rightarrow> (case lo of None \<Rightarrow> True | Some l \<Rightarrow> l \<le> x)
                       \<and> (case hi of None \<Rightarrow> True | Some h \<Rightarrow> x \<le> h))"

definition clip_sample :: "real list \<Rightarrow> real list" where
  "clip_sample row = map (\<lambda>vi. clip_value vi (row ! vi)) [0 ..< length row]"

definition reconstruct :: "array2 \<Rightarrow> real list \<Rightarrow> real list \<Rightarrow> real list" where
  "reconstruct eigvecs_k mu z = (case eigvecs_k of ((d, k), V) \<Rightarrow>
     map (\<lambda>j. sum_list (map (\<lambda>c. z ! c * V ! j ! c) [0 ..< k]) + mu ! j) [0 ..< d])"


text \<open>A generator that counts, and a basis of one component over seven variables.\<close>

definition counter_gauss :: "nat \<Rightarrow> real \<times> nat" where
  "counter_gauss g = (- real g, Suc g)"

definition example_basis :: array2 where
  "example_basis = ((7, 1), [[1], [1], [0], [0], [0], [0], [0]])"

definition example_mu :: "real list" where
  "example_mu = [1 / 2, 123 / 2, 50, 50, 3, 100, 10]"

section \<open>Weather classification: \<open>classify_weather\<close>\<close>

text \<open>
  \<open>predictions\<close> is a dictionary from a variable's readable name to a dictionary of its
  statistics; a statistic is a float (\<open>mean\<close>, \<open>probability\<close>, ...) or a string
  (\<open>unit\<close>). A missing key raises \<open>KeyError\<close>; comparing a string with a number
  raises \<open>TypeError\<close>. \<open>.get('probability', 0)\<close> defaults to 0.
\<close>

datatype py_val = PyFloat real | PyStr string

type_synonym py_dict = "string \<rightharpoonup> py_val"

definition getitem :: "(string \<rightharpoonup> 'v) \<Rightarrow> string \<Rightarrow> py_error + 'v" where
  "getitem d k = (case d k of None \<Rightarrow> Inl KeyError | Some v \<Rightarrow> Inr v)"

definition as_number :: "py_val \<Rightarrow> py_error + real" where
  "as_number v = (case v of PyFloat x \<Rightarrow> Inr x | PyStr s \<Rightarrow> Inl TypeError)"

definition get_mean :: "(string \<rightharpoonup> py_dict) \<Rightarrow> string \<Rightarrow> py_error + real" where
  "get_mean predictions name =
     bind_err (getitem predictions name) (\<lambda>d. bind_err (getitem d ''mean'') as_number)"

definition get_probability :: "(string \<rightharpoonup> py_dict) \<Rightarrow> py_error + real" where
  "get_probability predictions =
     bind_err (getitem predictions ''precipitation'')
       (\<lambda>d. case d ''probability'' of None \<Rightarrow> Inr 0 | Some v \<Rightarrow> as_number v)"

text \<open>\<open>str.lower()\<close>, on the ASCII letters the descriptions are written in.\<close>

definition char_lower :: "char \<Rightarrow> char" where
  "char_lower c =
     (case map_of (zip ''ABCDEFGHIJKLMNOPQRSTUVWXYZ'' ''abcdefghijklmnopqrstuvwxyz'') c of
        Some l \<Rightarrow> l
      | None \<Rightarrow> c)"

definition str_lower :: "string \<Rightarrow> string" where
  "str_lower s = map char_lower s"

text \<open>
  The parts of the body of \<open>classify_weather\<close>, in the order of the source: the
  temperature category (assigned and never read), the primary weather determination
  (the first matching branch wins), the wind modifier and the special conditions.
\<close>

definition temp_category :: "real \<Rightarrow> string" where
  "temp_category temp =
     (if temp < 0 then ''freezing''
      else if temp < 10 then ''cold''
      else if temp < 20 then ''cool''
      else if temp < 28 then ''comfortable''
      else if temp < 35 then ''warm''
      else ''hot'')"

definition primary_weather :: "real \<Rightarrow> real \<Rightarrow> real \<Rightarrow> real \<Rightarrow> string \<times> string" where
  "primary_weather temp precip precip_prob clouds =
     (if precip > 5 \<and> precip_prob > 5 / 10 then
        (if temp < 0 then (''snowy'', ''Expect snowfall'')
         else if precip > 20 then (''heavy_rain'', ''Heavy rainfall expected'')
         else (''rainy'', ''Rainy conditions''))
      else if precip > 5 / 10 \<and> precip_prob > 3 / 10 then (''light_rain'', ''Light rain possible'')
      else if clouds > 80 then (''overcast'', ''Overcast skies'')
      else if clouds > 50 then (''cloudy'', ''Mostly cloudy'')
      else if clouds > 20 then (''partly_cloudy'', ''Partly cloudy'')
      else if temp > 30 then (''hot'', ''Hot and sunny'')
      else (''clear'', ''Clear skies''))"

definition wind_modifier :: "real \<Rightarrow> string \<times> string \<Rightarrow> string \<times> string" where
  "wind_modifier wind cd =
     (if wind > 15 then (''windy_'' @ fst cd, ''Windy with '' @ str_lower (snd cd)) else cd)"

definition special_conditions :: "real \<Rightarrow> real \<Rightarrow> string \<times> string \<Rightarrow> string \<times> string" where
  "special_conditions humidity temp cd =
     (if humidity > 85 \<and> temp > 25 then (fst cd, snd cd @ '' and humid'')
      else if humidity < 30 then (fst cd, snd cd @ '' and dry'')
      else cd)"

definition classify_weather :: "(string \<rightharpoonup> py_dict) \<Rightarrow> py_error + string \<times> string" where
  "classify_weather predictions =
     bind_err (get_mean predictions ''temperature'') (\<lambda>temp.
     bind_err (get_mean predictions ''precipitation'') (\<lambda>precip.
     bind_err (get_probability predictions) (\<lambda>precip_prob.
     bind_err (get_mean predictions ''cloud_cover'') (\<lambda>clouds.
     bind_err (get_mean predictions ''wind_speed'') (\<lambda>wind.
     bind_err (get_mean predictions ''humidity'') (\<lambda>humidity.
       let temp_cat = temp_category temp
       in Inr (special_conditions humidity temp
                 (wind_modifier wind (primary_weather temp precip precip_prob clouds)))))))))"

text \<open>The closed vocabulary of classifications without the wind prefix.\<close>

definition base_classifications :: "string list" where
  "base_classifications = [''snowy'', ''heavy_rain'', ''rainy'', ''light_rain'', ''overcast'',
     ''cloudy'', ''partly_cloudy'', ''hot'', ''clear'']"

text \<open>A statistics dictionary holding only a mean, and a sample input.\<close>

definition stats_of :: "real \<Rightarrow> py_dict" where
  "stats_of m = [''mean'' \<mapsto> PyFloat m]"

definition example_predictions :: "string \<rightharpoonup> py_dict" where
  "example_predictions = [''temperature'' \<mapsto> stats_of 12,
     ''precipitation'' \<mapsto> (stats_of 7)(''probability'' \<mapsto> PyFloat (4 / 10)),
     ''cloud_cover'' \<mapsto> stats_of 90, ''wind_speed'' \<mapsto> stats_of 20, ''humidity'' \<mapsto> stats_of 50]"

section \<open>Lemmas on sums\<close>

lemma sum_list_pos_exp:
  fixes f :: "'a \<Rightarrow> real"
  assumes "xs \<noteq> []" "\<And>x. x \<in> set xs \<Longrightarrow> 0 < f x"
  shows "0 < sum_list (map f xs)"
proof (cases xs)
  case Nil
  with assms(1) show ?thesis by simp
next
  case (Cons a as)
  have "0 < f a" using assms(2) Cons by simp
  moreover have "0 \<le> sum_list (map f as)"
    using assms(2) Cons by (intro sum_list_nonneg) (auto simp: less_imp_le)
  ultimately show ?thesis using Cons by simp
qed

lemma sum_list_normalized:
  fixes ws :: "real list"
  assumes "sum_list ws \<noteq> 0"
  shows "sum_list (map (\<lambda>x. x / sum_list ws) ws) = 1"
proof -
  have "sum_list (map (\<lambda>x. x / c) ws) = sum_list ws / c" for c :: real
    by (induction ws) (simp_all add: add_divide_distrib)
  then show ?thesis using assms by simp
qed

lemma sum_list_outer:
  "sum_list (map sum_list (np_outer a b)) = sum_list a * sum_list b"
proof -
  have row: "sum_list (map (\<lambda>y. x * y) b) = x * sum_list b" for x :: real
    by (induction b) (simp_all add: distrib_left)
  show ?thesis
    by (induction a) (simp_all add: np_outer_def row distrib_right)
qed

section \<open>Lemmas on the state vector loops\<close>

lemma fold_update_row:
  "fold (\<lambda>d S. S[y := F d (S ! y)]) ds S = S[y := fold F ds (S ! y)]"
proof (cases "y < length S")
  case True
  then show ?thesis by (induction ds arbitrary: S) simp_all
next
  case False
  then have "fold (\<lambda>d S. S[y := F d (S ! y)]) ds S = S"
    by (induction ds arbitrary: S) (simp_all add: list_update_beyond)
  with False show ?thesis by (simp add: list_update_beyond)
qed

lemma fold_fill_prefix:
  "k \<le> n \<Longrightarrow> length R = n \<Longrightarrow>
   fold (\<lambda>d R. R[d - W := g d]) [W ..< W + k] R = map (\<lambda>j. g (j + W)) [0 ..< k] @ drop k R"
proof (induction k)
  case 0
  then show ?case by simp
next
  case (Suc k)
  have "fold (\<lambda>d R. R[d - W := g d]) [W ..< W + Suc k] R
      = (map (\<lambda>j. g (j + W)) [0 ..< k] @ drop k R)[k := g (W + k)]"
    using Suc by simp
  also have "\<dots> = map (\<lambda>j. g (j + W)) [0 ..< k] @ (drop k R)[0 := g (W + k)]"
    by (simp add: list_update_append)
  also have "(drop k R)[0 := g (W + k)] = g (W + k) # drop (Suc k) R"
    using Suc.prems by (cases "drop k R") (auto simp: drop_Suc [symmetric] tl_drop dest: arg_cong [where f = tl])
  finally show ?case by (simp add: add.commute)
qed

lemma fold_fill_row:
  "length R = n \<Longrightarrow>
   fold (\<lambda>d R. R[d - W := g d]) [W ..< W + n] R = map (\<lambda>j. g (j + W)) [0 ..< n]"
  using fold_fill_prefix [of n n R W g] by simp

lemma fold_rows_prefix:
  "k \<le> length S \<Longrightarrow>
   fold (\<lambda>y S. S[y := h y (S ! y)]) [0 ..< k] S = map (\<lambda>y. h y (S ! y)) [0 ..< k] @ drop k S"
proof (induction k)
  case 0
  then show ?case by simp
next
  case (Suc k)
  let ?P = "map (\<lambda>y. h y (S ! y)) [0 ..< k]"
  have "fold (\<lambda>y S. S[y := h y (S ! y)]) [0 ..< Suc k] S
      = (?P @ drop k S)[k := h k ((?P @ drop k S) ! k)]"
    using Suc by simp
  also have "(?P @ drop k S) ! k = S ! k"
    using Suc.prems by (simp add: nth_append)
  also have "(?P @ drop k S)[k := h k (S ! k)] = ?P @ (drop k S)[0 := h k (S ! k)]"
    by (simp add: list_update_append)
  also have "(drop k S)[0 := h k (S ! k)] = h k (S ! k) # drop (Suc k) S"
    using Suc.prems by (cases "drop k S") (auto simp: drop_Suc [symmetric] tl_drop dest: arg_cong [where f = tl])
  finally show ?case by simp
qed

lemma py_slice_nth:
  "lo + n \<le> length xs \<Longrightarrow> py_slice lo (lo + n) xs = map (\<lambda>t. xs ! (lo + t)) [0 ..< n]"
  by (auto simp: py_slice_def intro!: nth_equalityI)

lemma nth_concat_uniform:
  "\<forall>xs \<in> set xss. length xs = m \<Longrightarrow> t < length xss \<Longrightarrow> v < m \<Longrightarrow>
   concat xss ! (t * m + v) = xss ! t ! v"
proof (induction xss arbitrary: t)
  case Nil
  then show ?case by simp
next
  case (Cons xs xss)
  show ?case
  proof (cases t)
    case 0
    with Cons.prems show ?thesis by (simp add: nth_append)
  next
    case (Suc t')
    with Cons.prems have "concat xss ! (t' * m + v) = xss ! t' ! v"
      by (intro Cons.IH) auto
    with Cons.prems Suc show ?thesis by (simp add: nth_append)
  qed
qed

lemma length_concat_uniform:
  "\<forall>xs \<in> set xss. length xs = m \<Longrightarrow> length (concat xss) = length xss * m"
  by (induction xss) simp_all


lemma build_state_vectors_eq:
  assumes "length X = n_years" and "2 * W \<le> n_days"
  shows "build_state_vectors ((n_years, n_days, n_vars), X) W =
     Inr ((n_years, n_days - 2 * W, (2 * W + 1) * n_vars),
          map (\<lambda>y. map (\<lambda>j. concat (py_slice j (j + 2 * W + 1) (X ! y))) [0 ..< n_days - 2 * W])
            [0 ..< n_years])"
proof -
  define n where "n = n_days - 2 * W"
  define G where "G = (\<lambda>y d. concat (py_slice (d - W) (d + W + 1) (X ! y)))"
  define S0 where "S0 = replicate n_years (replicate n (replicate ((2 * W + 1) * n_vars) (0::real)))"
  define h where "h = (\<lambda>y R. fold (\<lambda>d R. R[d - W := G y d]) [W ..< W + n] (R :: real list list))"
  have range: "[W ..< n_days - W] = [W ..< W + n]"
    using assms(2) by (simp add: n_def)
  have step: "(\<lambda>y S. fold (\<lambda>d S. S[y := (S ! y)[d - W := G y d]]) [W ..< W + n] S)
      = (\<lambda>y S. S[y := h y (S ! y)])"
    unfolding h_def by (intro ext) (rule fold_update_row)
  have row: "h y (S0 ! y) = map (\<lambda>j. G y (j + W)) [0 ..< n]" if "y < n_years" for y
    unfolding h_def using that by (intro fold_fill_row) (simp add: S0_def)
  have G: "G y (j + W) = concat (py_slice j (j + 2 * W + 1) (X ! y))" for y j
    by (simp add: G_def mult_2 add.assoc)
  have "fold (\<lambda>y S. S[y := h y (S ! y)]) [0 ..< n_years] S0
      = map (\<lambda>y. h y (S0 ! y)) [0 ..< n_years]"
    using fold_rows_prefix [of n_years S0 h] by (simp add: S0_def)
  also have "\<dots> = map (\<lambda>y. map (\<lambda>j. concat (py_slice j (j + 2 * W + 1) (X ! y))) [0 ..< n]) [0 ..< n_years]"
    by (rule map_cong) (simp_all add: row G)
  finally have fold_eq: "fold (\<lambda>y S. fold (\<lambda>d S. S[y := (S ! y)[d - W := G y d]]) [W ..< W + n] S)
      [0 ..< n_years] S0
      = map (\<lambda>y. map (\<lambda>j. concat (py_slice j (j + 2 * W + 1) (X ! y))) [0 ..< n]) [0 ..< n_years]"
    by (simp only: step)
  have "build_state_vectors ((n_years, n_days, n_vars), X) W =
      Inr ((n_years, n, (2 * W + 1) * n_vars),
        fold (\<lambda>y S. fold (\<lambda>d S. S[y := (S ! y)[d - W := G y d]]) [W ..< W + n] S)
          [0 ..< n_years] S0)"
    using assms(2)
    unfolding build_state_vectors_def Let_def prod.case range G_def S0_def n_def
    by (simp only: not_less [symmetric] if_False)
  then show ?thesis
    by (simp only: fold_eq) (simp only: n_def)
qed

section \<open>Lemmas on the weighted PCA\<close>

subsection \<open>The weighted covariance is positive semidefinite\<close>

lemma sum_list_upt_sum: "sum_list (map f [0 ..< n]) = (\<Sum>i<n. f i)"
  for f :: "nat \<Rightarrow> real"
  by (induction n) simp_all

lemma quad_form_symm:
  fixes S0 :: "nat \<Rightarrow> nat \<Rightarrow> real" and v :: "nat \<Rightarrow> real"
  shows "(\<Sum>a<m. v a * (\<Sum>b<m. (5 / 10) * (S0 a b + S0 b a) * v b))
       = (\<Sum>a<m. \<Sum>b<m. v a * S0 a b * v b)"
proof -
  have "(\<Sum>a<m. v a * (\<Sum>b<m. (5 / 10) * (S0 a b + S0 b a) * v b))
      = (\<Sum>a<m. \<Sum>b<m. (1 / 2) * (v a * S0 a b * v b) + (1 / 2) * (v a * S0 b a * v b))"
    by (simp add: sum_distrib_left algebra_simps)
  also have "\<dots> = (1 / 2) * (\<Sum>a<m. \<Sum>b<m. v a * S0 a b * v b)
                 + (1 / 2) * (\<Sum>a<m. \<Sum>b<m. v a * S0 b a * v b)"
    by (simp add: sum.distrib sum_distrib_left)
  also have "(\<Sum>a<m. \<Sum>b<m. v a * S0 b a * v b) = (\<Sum>b<m. \<Sum>a<m. v a * S0 b a * v b)"
    by (rule sum.swap)
  also have "\<dots> = (\<Sum>a<m. \<Sum>b<m. v a * S0 a b * v b)"
    by (simp add: mult_ac)
  finally show ?thesis by simp
qed

lemma quad_form_gram:
  fixes c :: "nat \<Rightarrow> nat \<Rightarrow> real" and w v :: "nat \<Rightarrow> real"
  shows "(\<Sum>a<m. \<Sum>b<m. v a * (\<Sum>i<n. c i a * (c i b * w i)) * v b)
       = (\<Sum>i<n. w i * (\<Sum>a<m. c i a * v a)\<^sup>2)"
proof -
  have "(\<Sum>a<m. \<Sum>b<m. v a * (\<Sum>i<n. c i a * (c i b * w i)) * v b)
      = (\<Sum>a<m. \<Sum>b<m. \<Sum>i<n. w i * ((c i a * v a) * (c i b * v b)))"
    by (simp add: sum_distrib_left sum_distrib_right mult_ac)
  also have "\<dots> = (\<Sum>a<m. \<Sum>i<n. \<Sum>b<m. w i * ((c i a * v a) * (c i b * v b)))"
    by (intro sum.cong refl sum.swap)
  also have "\<dots> = (\<Sum>i<n. \<Sum>a<m. \<Sum>b<m. w i * ((c i a * v a) * (c i b * v b)))"
    by (rule sum.swap)
  also have "\<dots> = (\<Sum>i<n. w i * ((\<Sum>a<m. c i a * v a) * (\<Sum>b<m. c i b * v b)))"
  proof (rule sum.cong [OF refl])
    fix i
    have "w i * ((\<Sum>a<m. c i a * v a) * (\<Sum>b<m. c i b * v b))
        = w i * (\<Sum>a<m. \<Sum>b<m. (c i a * v a) * (c i b * v b))"
      by (simp only: sum_product)
    also have "\<dots> = (\<Sum>a<m. \<Sum>b<m. w i * ((c i a * v a) * (c i b * v b)))"
      by (simp only: sum_distrib_left)
    finally show "(\<Sum>a<m. \<Sum>b<m. w i * ((c i a * v a) * (c i b * v b)))
        = w i * ((\<Sum>a<m. c i a * v a) * (\<Sum>b<m. c i b * v b))"
      by (rule sym)
  qed
  finally show ?thesis by (simp add: power2_eq_square)
qed

lemma quad_form_nonneg:
  fixes c :: "nat \<Rightarrow> nat \<Rightarrow> real" and w v :: "nat \<Rightarrow> real"
  assumes "\<And>i. i < n \<Longrightarrow> 0 \<le> w i"
  shows "0 \<le> (\<Sum>a<m. v a * (\<Sum>b<m. (5 / 10) * ((\<Sum>i<n. c i a * (c i b * w i)) + (\<Sum>i<n. c i b * (c i a * w i))) * v b))"
proof -
  have "0 \<le> (\<Sum>i<n. w i * (\<Sum>a<m. c i a * v a)\<^sup>2)"
    using assms by (intro sum_nonneg mult_nonneg_nonneg) simp_all
  then show ?thesis
    unfolding quad_form_symm [where ?S0.0 = "\<lambda>a b. \<Sum>i<n. c i a * (c i b * w i)"] quad_form_gram .
qed

lemma eigenvalue_nonneg:
  fixes A :: "nat \<Rightarrow> nat \<Rightarrow> real" and v :: "nat \<Rightarrow> real"
  assumes psd: "0 \<le> (\<Sum>a<m. v a * (\<Sum>b<m. A a b * v b))"
    and eig: "\<And>a. a < m \<Longrightarrow> (\<Sum>b<m. A a b * v b) = lam * v a"
    and nz: "\<exists>a<m. v a \<noteq> 0"
  shows "0 \<le> lam"
proof -
  have "(\<Sum>a<m. v a * (\<Sum>b<m. A a b * v b)) = (\<Sum>a<m. lam * (v a)\<^sup>2)"
    by (intro sum.cong refl) (simp add: eig power2_eq_square)
  also have "\<dots> = lam * (\<Sum>a<m. (v a)\<^sup>2)"
    by (simp add: sum_distrib_left)
  finally have 1: "0 \<le> lam * (\<Sum>a<m. (v a)\<^sup>2)" using psd by simp
  obtain a where a: "a < m" "v a \<noteq> 0" using nz by blast
  have "0 < (v a)\<^sup>2" using a by simp
  also have "(v a)\<^sup>2 \<le> (\<Sum>a<m. (v a)\<^sup>2)"
    using a(1) by (intro member_le_sum) simp_all
  finally have "0 < (\<Sum>a<m. (v a)\<^sup>2)" .
  with 1 show ?thesis by (simp add: zero_le_mult_iff)
qed

lemma pca_sigma_shape: "fst (pca_sigma ((n, m), X) w mu) = (m, m)"
  by (simp add: pca_sigma_def pca_center_def pca_scale_rows_def np_transpose_def matmul_def
      symmetrize_def Let_def)

lemma matmul_entry:
  "a < n \<Longrightarrow> b < m \<Longrightarrow>
   snd (matmul ((n, k), X) ((k', m), Y)) ! a ! b = (\<Sum>i<k. X ! a ! i * Y ! i ! b)"
  by (simp add: matmul_def sum_list_upt_sum)

lemma np_transpose_entry:
  "i < n \<Longrightarrow> j < m \<Longrightarrow> snd (np_transpose ((n, m), X)) ! j ! i = X ! i ! j"
  by (simp add: np_transpose_def)

lemma pca_center_entry:
  "i < n \<Longrightarrow> j < m \<Longrightarrow> snd (pca_center ((n, m), X) mu) ! i ! j = X ! i ! j - mu ! j"
  by (simp add: pca_center_def)

lemma pca_scale_rows_entry:
  "i < n \<Longrightarrow> j < m \<Longrightarrow> snd (pca_scale_rows ((n, m), X) w) ! i ! j = X ! i ! j * w ! i"
  by (simp add: pca_scale_rows_def)

lemma symmetrize_entry:
  "a < n \<Longrightarrow> b < m \<Longrightarrow> snd (symmetrize ((n, m), S)) ! a ! b = (5 / 10) * (S ! a ! b + S ! b ! a)"
  by (simp add: symmetrize_def)

lemma pca_sigma_entry:
  assumes "a < m" "b < m"
  shows "snd (pca_sigma ((n, m), X) w mu) ! a ! b =
     (5 / 10) * ((\<Sum>i<n. (X ! i ! a - mu ! a) * ((X ! i ! b - mu ! b) * w ! i))
               + (\<Sum>i<n. (X ! i ! b - mu ! b) * ((X ! i ! a - mu ! a) * w ! i)))"
proof -
  define C where "C = snd (pca_center ((n, m), X) mu)"
  define CW where "CW = snd (pca_scale_rows ((n, m), C) w)"
  define CT where "CT = snd (np_transpose ((n, m), C))"
  define S0 where "S0 = snd (matmul ((m, n), CT) ((n, m), CW))"
  have Xc: "pca_center ((n, m), X) mu = ((n, m), C)"
    by (simp add: C_def pca_center_def)
  have Xcw: "pca_scale_rows ((n, m), C) w = ((n, m), CW)"
    by (simp add: CW_def pca_scale_rows_def)
  have XcT: "np_transpose ((n, m), C) = ((m, n), CT)"
    by (simp add: CT_def np_transpose_def)
  have mm: "matmul ((m, n), CT) ((n, m), CW) = ((m, m), S0)"
    by (simp add: S0_def matmul_def)
  have sig: "pca_sigma ((n, m), X) w mu = symmetrize ((m, m), S0)"
    by (simp add: pca_sigma_def Let_def Xc Xcw XcT mm)
  have S0: "S0 ! a' ! b' = (\<Sum>i<n. (X ! i ! a' - mu ! a') * ((X ! i ! b' - mu ! b') * w ! i))"
    if "a' < m" "b' < m" for a' b'
  proof -
    have "S0 ! a' ! b' = (\<Sum>i<n. CT ! a' ! i * CW ! i ! b')"
      unfolding S0_def using that by (rule matmul_entry)
    also have "\<dots> = (\<Sum>i<n. (X ! i ! a' - mu ! a') * ((X ! i ! b' - mu ! b') * w ! i))"
    proof (rule sum.cong [OF refl])
      fix i assume "i \<in> {..<n}"
      then have i: "i < n" by simp
      have "CT ! a' ! i = C ! i ! a'"
        unfolding CT_def using i that(1) by (rule np_transpose_entry)
      moreover have "C ! i ! a' = X ! i ! a' - mu ! a'" "C ! i ! b' = X ! i ! b' - mu ! b'"
        unfolding C_def using i that by (simp_all add: pca_center_entry)
      moreover have "CW ! i ! b' = C ! i ! b' * w ! i"
        unfolding CW_def using i that(2) by (rule pca_scale_rows_entry)
      ultimately show "CT ! a' ! i * CW ! i ! b' = (X ! i ! a' - mu ! a') * ((X ! i ! b' - mu ! b') * w ! i)"
        by simp
    qed
    finally show ?thesis .
  qed
  have "snd (pca_sigma ((n, m), X) w mu) ! a ! b = (5 / 10) * (S0 ! a ! b + S0 ! b ! a)"
    unfolding sig using assms by (rule symmetrize_entry)
  then show ?thesis using assms by (simp only: S0)
qed

lemma pca_sigma_eigenvalue_nonneg:
  assumes wpos: "\<And>i. i < n \<Longrightarrow> 0 \<le> w ! i"
    and eig: "is_eigenpair (pca_sigma ((n, m), X) w mu) lam v"
  shows "0 \<le> lam"
proof -
  obtain S where S: "pca_sigma ((n, m), X) w mu = ((m, m), S)"
    using pca_sigma_shape [of n m X w mu] by (cases "pca_sigma ((n, m), X) w mu") auto
  define A where "A = (\<lambda>a b. (5 / 10) * ((\<Sum>i<n. (X ! i ! a - mu ! a) * ((X ! i ! b - mu ! b) * w ! i))
               + (\<Sum>i<n. (X ! i ! b - mu ! b) * ((X ! i ! a - mu ! a) * w ! i))))"
  have entry: "S ! a ! b = A a b" if "a < m" "b < m" for a b
    using pca_sigma_entry [OF that, of n X w mu] by (simp add: S A_def)
  have nz: "\<exists>a<m. v ! a \<noteq> 0" and ev: "\<And>a. a < m \<Longrightarrow> sum_list (map (\<lambda>b. S ! a ! b * v ! b) [0 ..< m]) = lam * v ! a"
    using eig by (auto simp: is_eigenpair_def S)
  have ev': "(\<Sum>b<m. A a b * v ! b) = lam * v ! a" if "a < m" for a
  proof -
    have "(\<Sum>b<m. A a b * v ! b) = (\<Sum>b<m. S ! a ! b * v ! b)"
      using that by (intro sum.cong refl) (simp add: entry)
    then show ?thesis using ev [OF that] by (simp add: sum_list_upt_sum)
  qed
  have psd: "0 \<le> (\<Sum>a<m. v ! a * (\<Sum>b<m. A a b * v ! b))"
    unfolding A_def by (rule quad_form_nonneg) (rule wpos)
  show ?thesis
    by (rule eigenvalue_nonneg [where v = "\<lambda>a. v ! a" and A = A, OF psd ev' nz])
qed

subsection \<open>Sorting, cumulative sums and the binary search\<close>

lemma sum_list_map_insort_key:
  fixes g :: "'a \<Rightarrow> real"
  shows "sum_list (map g (insort_key f x xs)) = g x + sum_list (map g xs)"
  by (induction xs) simp_all

lemma sum_list_map_sort_key:
  fixes g :: "'a \<Rightarrow> real"
  shows "sum_list (map g (sort_key f xs)) = sum_list (map g xs)"
  by (induction xs) (simp_all add: sum_list_map_insort_key)

lemma pca_sorted_eigvals_eq: "pca_sorted_eigvals xs = rev (map (\<lambda>i. xs ! i) (np_argsort xs))"
  by (simp add: pca_sorted_eigvals_def Let_def rev_map)

lemma length_pca_sorted_eigvals: "length (pca_sorted_eigvals xs) = length xs"
  by (simp add: pca_sorted_eigvals_eq np_argsort_def)

lemma set_pca_sorted_eigvals: "set (pca_sorted_eigvals xs) = set xs"
proof -
  have "set (pca_sorted_eigvals xs) = (\<lambda>i. xs ! i) ` set [0 ..< length xs]"
    by (simp add: pca_sorted_eigvals_eq np_argsort_def)
  also have "\<dots> = set (map (\<lambda>i. xs ! i) [0 ..< length xs])" by simp
  also have "\<dots> = set xs" by (simp only: map_nth)
  finally show ?thesis .
qed

lemma sum_list_pca_sorted_eigvals: "sum_list (pca_sorted_eigvals xs) = sum_list xs"
proof -
  have "sum_list (pca_sorted_eigvals xs) = sum_list (map (\<lambda>i. xs ! i) (np_argsort xs))"
    by (simp add: pca_sorted_eigvals_eq)
  also have "\<dots> = sum_list (map (\<lambda>i. xs ! i) [0 ..< length xs])"
    unfolding np_argsort_def by (rule sum_list_map_sort_key)
  also have "\<dots> = sum_list xs" by (simp only: map_nth)
  finally show ?thesis .
qed

lemma pca_sorted_eigvals_descending: "sorted_wrt (\<lambda>x y. y \<le> x) (pca_sorted_eigvals xs)"
proof -
  have "sorted (map (\<lambda>i. xs ! i) (np_argsort xs))"
    unfolding np_argsort_def by (rule sorted_sort_key)
  then show ?thesis
    by (simp add: pca_sorted_eigvals_eq sorted_wrt_rev)
qed

lemma length_cumsum_from: "length (cumsum_from acc xs) = length xs"
  by (induction xs arbitrary: acc) simp_all

lemma cumsum_from_nth:
  "i < length xs \<Longrightarrow> cumsum_from acc xs ! i = acc + sum_list (take (Suc i) xs)"
proof (induction xs arbitrary: acc i)
  case Nil
  then show ?case by simp
next
  case (Cons x xs)
  then show ?case by (cases i) simp_all
qed

lemma cumsum_from_ge:
  "\<forall>x \<in> set xs. 0 \<le> x \<Longrightarrow> y \<in> set (cumsum_from acc xs) \<Longrightarrow> acc \<le> y"
proof (induction xs arbitrary: acc)
  case Nil
  then show ?case by simp
next
  case (Cons x xs)
  from Cons.prems(2) consider "y = acc + x" | "y \<in> set (cumsum_from (acc + x) xs)" by auto
  then show ?case
  proof cases
    case 1
    with Cons.prems(1) show ?thesis by simp
  next
    case 2
    with Cons.prems(1) have "acc + x \<le> y" by (intro Cons.IH) simp_all
    with Cons.prems(1) show ?thesis by simp
  qed
qed

lemma sorted_cumsum_from:
  "\<forall>x \<in> set xs. 0 \<le> x \<Longrightarrow> sorted (cumsum_from acc xs)"
proof (induction xs arbitrary: acc)
  case Nil
  then show ?case by simp
next
  case (Cons x xs)
  then show ?case using cumsum_from_ge [of xs _ "acc + x"] by simp
qed

lemma searchsorted_loop_sorted:
  assumes "sorted arr" "max_idx \<le> length arr" "min_idx \<le> max_idx"
    and "\<forall>j < min_idx. arr ! j < key"
    and "\<forall>j. max_idx \<le> j \<and> j < length arr \<longrightarrow> key \<le> arr ! j"
  shows "searchsorted_loop arr key min_idx max_idx \<le> length arr
       \<and> (\<forall>j < searchsorted_loop arr key min_idx max_idx. arr ! j < key)
       \<and> (\<forall>j. searchsorted_loop arr key min_idx max_idx \<le> j \<and> j < length arr \<longrightarrow> key \<le> arr ! j)"
  using assms
proof (induction arr key min_idx max_idx rule: searchsorted_loop.induct)
  case (1 arr key min_idx max_idx)
  show ?case
  proof (cases "min_idx < max_idx")
    case False
    with "1.prems" have eq: "min_idx = max_idx" by simp
    have "searchsorted_loop arr key min_idx max_idx = min_idx"
      using False by (simp add: searchsorted_loop.simps [of arr key min_idx max_idx])
    with "1.prems" eq show ?thesis by simp
  next
    case True
    define mid where "mid = min_idx + (max_idx - min_idx) div 2"
    have mid: "min_idx \<le> mid" "mid < max_idx" using True by (simp_all add: mid_def)
    show ?thesis
    proof (cases "arr ! mid < key")
      case less: True
      have below: "\<forall>j < mid + 1. arr ! j < key"
      proof (intro allI impI)
        fix j assume "j < mid + 1"
        then have "j \<le> mid" by simp
        moreover have "mid < length arr" using mid "1.prems"(2) by simp
        ultimately have "arr ! j \<le> arr ! mid" using "1.prems"(1) by (simp add: sorted_nth_mono)
        with less show "arr ! j < key" by simp
      qed
      have "searchsorted_loop arr key min_idx max_idx = searchsorted_loop arr key (mid + 1) max_idx"
        using True less by (simp add: searchsorted_loop.simps [of arr key min_idx max_idx] mid_def Let_def)
      moreover have "searchsorted_loop arr key (mid + 1) max_idx \<le> length arr
       \<and> (\<forall>j < searchsorted_loop arr key (mid + 1) max_idx. arr ! j < key)
       \<and> (\<forall>j. searchsorted_loop arr key (mid + 1) max_idx \<le> j \<and> j < length arr \<longrightarrow> key \<le> arr ! j)"
        using True less mid "1.prems" below
        by (intro "1.IH"(1) [OF True mid_def]) simp_all
      ultimately show ?thesis by simp
    next
      case ge: False
      have above: "\<forall>j. mid \<le> j \<and> j < length arr \<longrightarrow> key \<le> arr ! j"
      proof (intro allI impI)
        fix j assume "mid \<le> j \<and> j < length arr"
        then have "arr ! mid \<le> arr ! j" using "1.prems"(1) by (simp add: sorted_nth_mono)
        with ge show "key \<le> arr ! j" by simp
      qed
      have "searchsorted_loop arr key min_idx max_idx = searchsorted_loop arr key min_idx mid"
        using True ge by (simp add: searchsorted_loop.simps [of arr key min_idx max_idx] mid_def Let_def)
      moreover have "searchsorted_loop arr key min_idx mid \<le> length arr
       \<and> (\<forall>j < searchsorted_loop arr key min_idx mid. arr ! j < key)
       \<and> (\<forall>j. searchsorted_loop arr key min_idx mid \<le> j \<and> j < length arr \<longrightarrow> key \<le> arr ! j)"
        using True ge mid "1.prems" above
        by (intro "1.IH"(2) [OF True mid_def]) simp_all
      ultimately show ?thesis by simp
    qed
  qed
qed

lemma np_searchsorted_sorted:
  assumes "sorted arr"
  shows "np_searchsorted arr key \<le> length arr"
    and "\<And>j. j < np_searchsorted arr key \<Longrightarrow> arr ! j < key"
    and "\<And>j. np_searchsorted arr key \<le> j \<Longrightarrow> j < length arr \<Longrightarrow> key \<le> arr ! j"
  using searchsorted_loop_sorted [OF assms, of "length arr" 0 key]
  by (simp_all add: np_searchsorted_def)

subsection \<open>The result of \<open>weighted_pca\<close>\<close>

lemma normalized_nonneg:
  assumes "\<forall>x \<in> set weights. 0 \<le> x" "i < length weights"
  shows "0 \<le> normalized weights ! i"
proof -
  have "0 \<le> sum_list weights" using assms(1) by (intro sum_list_nonneg) simp
  moreover have "0 \<le> weights ! i" using assms by simp
  ultimately show ?thesis using assms(2) by (simp add: normalized_def)
qed

lemma sum_list_normalized_weights:
  "sum_list weights \<noteq> 0 \<Longrightarrow> sum_list (normalized weights) = 1"
  unfolding normalized_def by (rule sum_list_normalized)

lemma eigh_exact_nonneg:
  assumes len: "length weights = n" and nonneg: "\<forall>x \<in> set weights. 0 \<le> x"
    and exact: "eigh_exact (pca_sigma ((n, m), X) (normalized weights) mu) (eigvals0, eigvecs0)"
  shows "\<forall>lam \<in> set eigvals0. 0 \<le> lam"
proof
  fix lam assume "lam \<in> set eigvals0"
  then obtain i where i: "i < length eigvals0" "lam = eigvals0 ! i"
    by (auto simp: in_set_conv_nth)
  with exact have "is_eigenpair (pca_sigma ((n, m), X) (normalized weights) mu) lam (column eigvecs0 i)"
    by (simp add: eigh_exact_def)
  moreover have "0 \<le> normalized weights ! j" if "j < n" for j
    using normalized_nonneg [OF nonneg] that len by simp
  ultimately show "0 \<le> lam" by (rule pca_sigma_eigenvalue_nonneg [rotated])
qed

lemma sorted_pca_cumvar:
  assumes "\<forall>e \<in> set ev. 0 \<le> e"
  shows "sorted (pca_cumvar ev)"
proof -
  have tot: "0 \<le> sum_list ev" using assms by (intro sum_list_nonneg) simp
  have "\<forall>x \<in> set (map (\<lambda>e. e / (sum_list ev + 1 / 10 ^ 16)) ev). 0 \<le> x"
    using assms tot by (auto intro!: divide_nonneg_nonneg)
  then show ?thesis
    unfolding pca_cumvar_def Let_def np_cumsum_def by (rule sorted_cumsum_from)
qed

lemma length_pca_cumvar: "length (pca_cumvar ev) = length ev"
  by (simp add: pca_cumvar_def Let_def np_cumsum_def length_cumsum_from)

lemma weighted_pca_result:
  assumes len: "length weights = n" and pos: "sum_list weights \<noteq> 0"
    and eig: "eigh (pca_sigma ((n, m), X) (normalized weights)
                 (weighted_mean ((n, m), X) (normalized weights))) = Inr (eigvals0, eigvecs0)"
    and tot: "sum_list (pca_sorted_eigvals eigvals0) + 1 / 10 ^ 16 \<noteq> 0"
  shows "weighted_pca eigh ((n, m), X) weights var_threshold =
     Inr (map (\<lambda>e. max e (pca_eps_reg (sum_list (pca_sorted_eigvals eigvals0))))
            (take (max 1 (min (np_searchsorted (pca_cumvar (pca_sorted_eigvals eigvals0)) var_threshold + 1) m))
               (pca_sorted_eigvals eigvals0)),
          take_columns (max 1 (min (np_searchsorted (pca_cumvar (pca_sorted_eigvals eigvals0)) var_threshold + 1) m))
            (pca_sorted_eigvecs eigvals0 eigvecs0),
          weighted_mean ((n, m), X) (normalized weights),
          max 1 (min (np_searchsorted (pca_cumvar (pca_sorted_eigvals eigvals0)) var_threshold + 1) m))"
proof -
  have avg: "np_average_axis0 ((n, m), X) (normalized weights)
      = Inr (weighted_mean ((n, m), X) (normalized weights))"
    using len sum_list_normalized_weights [OF pos]
    by (simp add: np_average_axis0_def) (simp add: normalized_def)
  show ?thesis
    using pos tot by (simp add: weighted_pca_def avg eig bind_err_def Let_def)
qed

lemma set_np_argsort: "set (np_argsort xs) = {..<length xs}"
  by (auto simp: np_argsort_def)

lemma length_np_argsort: "length (np_argsort xs) = length xs"
  by (simp add: np_argsort_def)

lemma sorted_index_bound:
  assumes "j < length xs"
  shows "rev (np_argsort xs) ! j < length xs"
proof -
  have "rev (np_argsort xs) ! j \<in> set (rev (np_argsort xs))"
    using assms by (intro nth_mem) (simp add: length_np_argsort)
  then show ?thesis by (simp add: set_np_argsort)
qed

lemma pca_sorted_eigvals_nth:
  "j < length xs \<Longrightarrow> pca_sorted_eigvals xs ! j = xs ! (rev (np_argsort xs) ! j)"
  by (simp add: pca_sorted_eigvals_def Let_def length_np_argsort)

lemma sorted_column:
  assumes "j < k" "j < length eigvals0" "length V = r"
  shows "column (take_columns k (pca_sorted_eigvecs eigvals0 ((r, c), V))) j
       = column ((r, c), V) (rev (np_argsort eigvals0) ! j)"
  using assms
  by (simp add: column_def take_columns_def pca_sorted_eigvecs_def Let_def length_np_argsort)

lemma leading_pairs:
  assumes exact: "eigh_exact Cov (eigvals0, eigvecs0)" and j: "j < k" "j < length eigvals0"
  shows "is_eigenpair Cov (pca_sorted_eigvals eigvals0 ! j)
           (column (take_columns k (pca_sorted_eigvecs eigvals0 eigvecs0)) j)"
proof -
  obtain r c V where V: "eigvecs0 = ((r, c), V)" by (cases eigvecs0) auto
  have lenV: "length V = r" using exact by (simp add: eigh_exact_def V wf_array2_def)
  have "rev (np_argsort eigvals0) ! j < length eigvals0" using j(2) by (rule sorted_index_bound)
  with exact have "is_eigenpair Cov (eigvals0 ! (rev (np_argsort eigvals0) ! j))
      (column eigvecs0 (rev (np_argsort eigvals0) ! j))"
    by (simp add: eigh_exact_def)
  then show ?thesis
    using j lenV by (simp add: V sorted_column pca_sorted_eigvals_nth)
qed

lemma select_k_sorted:
  fixes thr :: real
  assumes srt: "sorted cv" and len: "length cv = m" and m: "1 \<le> m"
    and k_def: "k = max 1 (min (np_searchsorted cv thr + 1) m)"
  shows "1 \<le> k" "k \<le> m" "\<forall>j < k - 1. cv ! j < thr"
    "(\<exists>j < m. thr \<le> cv ! j) \<longrightarrow> thr \<le> cv ! (k - 1)"
    "(\<forall>j < m. cv ! j < thr) \<longrightarrow> k = m"
proof -
  define r where "r = np_searchsorted cv thr"
  have r: "r \<le> m" "\<And>j. j < r \<Longrightarrow> cv ! j < thr" "\<And>j. r \<le> j \<Longrightarrow> j < m \<Longrightarrow> thr \<le> cv ! j"
    using np_searchsorted_sorted [OF srt, where key = thr] len by (simp_all add: r_def)
  have k: "k = (if r < m then r + 1 else m)"
    using r(1) m by (auto simp: k_def r_def [symmetric])
  show "1 \<le> k" "k \<le> m" using m by (simp_all add: k)
  show "\<forall>j < k - 1. cv ! j < thr" using r(1,2) by (auto simp: k)
  show "(\<exists>j < m. thr \<le> cv ! j) \<longrightarrow> thr \<le> cv ! (k - 1)"
  proof
    assume "\<exists>j < m. thr \<le> cv ! j"
    then obtain j where j: "j < m" "thr \<le> cv ! j" by blast
    have "r < m"
    proof (rule ccontr)
      assume "\<not> r < m"
      with r(1) have "r = m" by simp
      with r(2) [of j] j show False by simp
    qed
    then show "thr \<le> cv ! (k - 1)" using r(3) [of r] by (simp add: k)
  qed
  show "(\<forall>j < m. cv ! j < thr) \<longrightarrow> k = m"
  proof
    assume all: "\<forall>j < m. cv ! j < thr"
    have "\<not> r < m"
    proof
      assume "r < m"
      with r(3) [of r] all show False by fastforce
    qed
    then show "k = m" by (simp add: k)
  qed
qed

subsection \<open>The sample inputs evaluated\<close>

lemma example_sigma:
  "pca_sigma example_X (normalized [1, 1]) (weighted_mean example_X (normalized [1, 1]))
     = ((2, 2), [[1, 0], [0, 0]])"
  by (simp add: example_X_def pca_sigma_def normalized_def weighted_mean_def pca_center_def
      pca_scale_rows_def np_transpose_def matmul_def symmetrize_def upt_rec)

lemma all_less_2: "(\<forall>i<Suc (Suc 0). P i) \<longleftrightarrow> P 0 \<and> P (Suc 0)"
  by (auto simp: less_Suc_eq)

lemma ex_less_2: "(\<exists>i<Suc (Suc 0). P i) \<longleftrightarrow> P 0 \<or> P (Suc 0)"
  by (auto simp: less_Suc_eq)

lemma example_exact: "eigh_exact ((2, 2), [[1, 0], [0, 0]]) ([0, 1], ((2, 2), [[0, 1], [1, 0]]))"
  by (simp add: eigh_exact_def wf_array2_def is_eigenpair_def column_def upt_rec
      numeral_2_eq_2 all_less_2 ex_less_2)

lemma example_sorted: "pca_sorted_eigvals [0, 1] = [1, 0]"
  by (simp add: pca_sorted_eigvals_def np_argsort_def upt_rec)

lemma constant_sigma:
  "pca_sigma constant_X (normalized [1, 1]) (weighted_mean constant_X (normalized [1, 1]))
     = ((1, 1), [[0]])"
  by (simp add: constant_X_def pca_sigma_def normalized_def weighted_mean_def pca_center_def
      pca_scale_rows_def np_transpose_def matmul_def symmetrize_def upt_rec)

lemma zero_exact: "eigh_exact ((1, 1), [[0]]) ([0], ((1, 1), [[1]]))"
  by (simp add: eigh_exact_def wf_array2_def is_eigenpair_def column_def)

lemma zero_sorted: "pca_sorted_eigvals [0] = [0]"
  by (simp add: pca_sorted_eigvals_def np_argsort_def)

lemma zero_cumvar: "pca_cumvar [0] = [0]"
  by (simp add: pca_cumvar_def np_cumsum_def)

lemma zero_search: "np_searchsorted [0] (95 / 100) = 1"
  by (simp add: np_searchsorted_def searchsorted_loop.simps)

section \<open>Lemmas on the ensemble sampler\<close>

lemma clip_value_within: "within_bounds vi x \<Longrightarrow> clip_value vi x = x"
  by (auto simp: within_bounds_def clip_value_def clip_bounds_def split: option.splits)

lemma within_bounds_clip_value: "within_bounds vi (clip_value vi x)"
  by (auto simp: within_bounds_def clip_value_def clip_bounds_def clip_dict_def split: option.splits if_splits)

lemma fold_apply_clip:
  assumes "\<forall>entry \<in> set entries. fst entry < c"
  shows "fold (\<lambda>entry acc. bind_err acc (apply_clip entry)) entries (Inr ((n, c), X))
       = Inr ((n, c), map (fold clip_row entries) X)"
  using assms
proof (induction entries arbitrary: X)
  case Nil
  then show ?case by (simp add: map_idI)
next
  case (Cons entry entries)
  obtain vi lo hi where entry: "entry = (vi, lo, hi)" by (cases entry) auto
  have vi: "vi < c" using Cons.prems entry by simp
  have step: "apply_clip entry ((n, c), X) = Inr ((n, c), map (clip_row entry) X)"
    using vi by (auto simp: apply_clip_def clip_row_def entry clip_bounds_def map_idI)
  have "fold (\<lambda>entry acc. bind_err acc (apply_clip entry)) (entry # entries) (Inr ((n, c), X))
      = fold (\<lambda>entry acc. bind_err acc (apply_clip entry)) entries (Inr ((n, c), map (clip_row entry) X))"
    by (simp add: bind_err_def step)
  also have "\<dots> = Inr ((n, c), map (fold clip_row entries) (map (clip_row entry) X))"
    using Cons.prems by (intro Cons.IH) simp
  finally show ?case by (simp add: comp_def)
qed

lemma clip_sample_eq:
  assumes "7 \<le> length row"
  shows "fold clip_row clip_dict row = clip_sample row"
proof (rule nth_equalityI)
  show "length (fold clip_row clip_dict row) = length (clip_sample row)"
    by (simp add: clip_sample_def clip_dict_def clip_row_def)
next
  fix i assume "i < length (fold clip_row clip_dict row)"
  then have i: "i < length row" by (simp add: clip_dict_def clip_row_def)
  have "clip_sample row ! i = clip_value i (row ! i)"
    using i by (simp add: clip_sample_def)
  moreover have "fold clip_row clip_dict row ! i = clip_value i (row ! i)"
    using i assms
    by (auto simp: clip_value_def clip_dict_def clip_row_def nth_list_update)
  ultimately show "fold clip_row clip_dict row ! i = clip_sample row ! i" by simp
qed

lemma apply_constraints_eq:
  assumes "7 \<le> c" "\<forall>row \<in> set X. length row = c"
  shows "apply_constraints ((n, c), X) = Inr ((n, c), map clip_sample X)"
proof -
  have "\<forall>entry \<in> set clip_dict. fst entry < c"
    using assms(1) by (simp add: clip_dict_def)
  then have "apply_constraints ((n, c), X) = Inr ((n, c), map (fold clip_row clip_dict) X)"
    unfolding apply_constraints_def by (rule fold_apply_clip)
  also have "map (fold clip_row clip_dict) X = map clip_sample X"
    using assms by (intro map_cong refl clip_sample_eq) simp
  finally show ?thesis .
qed

lemma apply_constraints_IndexError:
  assumes "c < 7"
  shows "apply_constraints ((n, c), X) = Inl IndexError"
proof -
  consider "c = 0" | "c = 1" | "c = 2" | "c = 3" | "c = 4" | "c = 5" | "c = 6"
    using assms by linarith
  then show ?thesis
    by cases (simp_all add: apply_constraints_def clip_dict_def apply_clip_def bind_err_def)
qed


lemma length_normal_rows: "length (fst (normal_rows gauss n scale g)) = n"
proof (induction n arbitrary: g)
  case 0
  then show ?case by simp
next
  case (Suc n)
  obtain row g1 where r: "normal_row gauss scale g = (row, g1)" by (cases "normal_row gauss scale g") auto
  obtain rows g2 where rs: "normal_rows gauss n scale g1 = (rows, g2)"
    by (cases "normal_rows gauss n scale g1") auto
  have "length rows = n" using Suc [of g1] by (simp add: rs)
  then show ?case by (simp add: r rs)
qed

lemma length_py_slice: "length (py_slice lo hi xs) = min hi (length xs) - min lo (length xs)"
  by (auto simp: py_slice_def min_def)

lemma clip_sample_nth: "vi < length row \<Longrightarrow> clip_sample row ! vi = clip_value vi (row ! vi)"
  by (simp add: clip_sample_def)

lemma length_clip_sample: "length (clip_sample row) = length row"
  by (simp add: clip_sample_def)

lemma clip_sample_bounds:
  assumes "7 \<le> length row"
  shows "0 \<le> clip_sample row ! 0 \<and> - 80 \<le> clip_sample row ! 1 \<and> clip_sample row ! 1 \<le> 60
       \<and> 0 \<le> clip_sample row ! 2 \<and> clip_sample row ! 2 \<le> 100
       \<and> 0 \<le> clip_sample row ! 3 \<and> clip_sample row ! 3 \<le> 100
       \<and> 0 \<le> clip_sample row ! 4 \<and> 0 \<le> clip_sample row ! 5
       \<and> - 80 \<le> clip_sample row ! 6 \<and> clip_sample row ! 6 \<le> 60"
proof -
  have "row \<noteq> []" using assms by auto
  then show ?thesis
    using assms
    by (simp add: clip_sample_nth clip_value_def clip_dict_def clip_bounds_def)
qed

lemma X_samples_eq:
  assumes "length mu = d" "length eigvals_k = k"
  shows "bind_err (np_matmul ((n, length eigvals_k), rows) (np_transpose ((d, k), V)))
           (\<lambda>Xc. np_add_row Xc mu)
       = Inr ((n, d), map (\<lambda>i. reconstruct ((d, k), V) mu (rows ! i)) [0 ..< n])"
proof -
  define VT where "VT = map (\<lambda>j. map (\<lambda>i. V ! i ! j) [0..<d]) [0..<k]"
  have VT: "VT ! c ! j = V ! j ! c" if "c < k" "j < d" for c j
    using that by (simp add: VT_def)
  have inner: "sum_list (map (\<lambda>c. z ! c * VT ! c ! j) [0..<k]) = sum_list (map (\<lambda>c. z ! c * V ! j ! c) [0..<k])"
    if "j < d" for j and z :: "real list"
    by (rule arg_cong [where f = sum_list], rule map_cong [OF refl]) (simp add: VT that)
  have mm: "np_matmul ((n, length eigvals_k), rows) (np_transpose ((d, k), V))
      = Inr ((n, d), map (\<lambda>a. map (\<lambda>b. sum_list (map (\<lambda>i. rows ! a ! i * VT ! i ! b) [0..<k])) [0..<d]) [0..<n])"
    using assms(2) by (simp add: np_matmul_def np_transpose_def matmul_def VT_def)
  have rows_eq: "map (\<lambda>i. map (\<lambda>j. map (\<lambda>a. map (\<lambda>b. sum_list (map (\<lambda>i. rows ! a ! i * VT ! i ! b) [0..<k])) [0..<d]) [0..<n] ! i ! j + mu ! j) [0..<d]) [0..<n]
      = map (\<lambda>i. reconstruct ((d, k), V) mu (rows ! i)) [0 ..< n]"
  proof (rule map_cong [OF refl])
    fix i assume "i \<in> set [0..<n]"
    then have i: "i < n" by simp
    show "map (\<lambda>j. map (\<lambda>a. map (\<lambda>b. sum_list (map (\<lambda>i. rows ! a ! i * VT ! i ! b) [0..<k])) [0..<d]) [0..<n] ! i ! j + mu ! j) [0..<d]
        = reconstruct ((d, k), V) mu (rows ! i)"
      unfolding reconstruct_def prod.case
    proof (rule map_cong [OF refl])
      fix j assume "j \<in> set [0..<d]"
      then have j: "j < d" by simp
      show "map (\<lambda>a. map (\<lambda>b. sum_list (map (\<lambda>i. rows ! a ! i * VT ! i ! b) [0..<k])) [0..<d]) [0..<n] ! i ! j + mu ! j
          = sum_list (map (\<lambda>c. rows ! i ! c * V ! j ! c) [0..<k]) + mu ! j"
        using i j by (simp add: inner)
    qed
  qed
  show ?thesis
    using assms(1) by (simp add: mm bind_err_def np_add_row_def rows_eq)
qed

lemma generate_ensemble_eq:
  assumes mu: "length mu = d" and k: "length eigvals_k = k"
    and nonneg: "\<forall>e \<in> set eigvals_k. 0 \<le> e"
  shows "generate_ensemble gauss g eigvals_k ((d, k), V) mu n_vars W N_mc =
     (apply_constraints
        ((N_mc, min (W * n_vars + n_vars) d - min (W * n_vars) d),
         map (\<lambda>i. py_slice (W * n_vars) (W * n_vars + n_vars)
                     (reconstruct ((d, k), V) mu (snd (fst (pc_samples gauss g eigvals_k N_mc)) ! i)))
           [0 ..< N_mc]),
      snd (pc_samples gauss g eigvals_k N_mc))"
proof -
  obtain rows g1 where nr: "normal_rows gauss N_mc (map sqrt eigvals_k) g = (rows, g1)"
    by (cases "normal_rows gauss N_mc (map sqrt eigvals_k) g") auto
  have pc: "pc_samples gauss g eigvals_k N_mc = (((N_mc, length eigvals_k), rows), g1)"
    by (simp add: pc_samples_def nr)
  have neg: "\<not> (\<exists>e \<in> set eigvals_k. e < 0)" using nonneg by (auto simp: not_less)
  note xs = X_samples_eq [OF mu k, of N_mc rows V]
  have "generate_ensemble gauss g eigvals_k ((d, k), V) mu n_vars W N_mc =
      (bind_err (bind_err (np_matmul ((N_mc, length eigvals_k), rows) (np_transpose ((d, k), V)))
           (\<lambda>Xc. np_add_row Xc mu))
         (\<lambda>X_samples. apply_constraints (slice_columns (W * n_vars) (W * n_vars + n_vars) X_samples)), g1)"
    using neg by (simp add: generate_ensemble_def pc bind_err_def Let_def split: sum.splits)
  then show ?thesis
    by (simp only: xs) (simp add: bind_err_def pc slice_columns_def comp_def)
qed


lemma example_ensemble:
  "generate_ensemble counter_gauss 1 [1] example_basis example_mu 7 0 1
     = (Inr ((1, 7), [[0, 60, 50, 50, 3, 100, 10]]), 2)"
  by (simp add: generate_ensemble_def pc_samples_def counter_gauss_def example_basis_def
      example_mu_def np_matmul_def np_transpose_def matmul_def np_add_row_def bind_err_def
      slice_columns_def py_slice_def apply_constraints_def clip_dict_def apply_clip_def
      clip_row_def clip_bounds_def upt_rec)

section \<open>Lemmas on the classification\<close>

lemma primary_weather_base: "fst (primary_weather t p q c) \<in> set base_classifications"
  by (simp add: primary_weather_def base_classifications_def)

lemma special_conditions_fst: "fst (special_conditions h t cd) = fst cd"
  by (simp add: special_conditions_def)

lemma windy_not_base: "''windy_'' @ b \<notin> set base_classifications"
  by (auto simp: base_classifications_def)

section \<open>The claims\<close>

text \<open>
  Claim C1, as amended. For a sample matrix with at least one column, non-negative
  weights (as many as samples, with a sum that is not zero) and an exact eigensolver,
  \<open>weighted_pca\<close> returns a component count \<open>K\<close> with \<open>1 \<le> K \<le> state dimension\<close> such
  that no smaller count reaches the threshold (\<open>cumvar[j] < threshold\<close> for \<open>j < K - 1\<close>);
  \<open>cumvar[K - 1] \<ge> threshold\<close> whenever some count reaches the threshold, and \<open>K\<close> is the
  state dimension when none does. It returns the \<open>K\<close> leading eigenvector columns, each
  an eigenvector for the eigenvalue of its rank, and the \<open>K\<close> leading eigenvalues, each
  raised to at least \<open>eps_reg\<close>.
\<close>

theorem weighted_pca_component_count:
  assumes len: "length weights = n" and nonneg: "\<forall>x \<in> set weights. 0 \<le> x"
    and pos: "sum_list weights \<noteq> 0" and cols: "1 \<le> m"
    and cov: "Cov = pca_sigma ((n, m), X) (normalized weights)
                      (weighted_mean ((n, m), X) (normalized weights))"
    and eig: "eigh Cov = Inr (eigvals0, eigvecs0)"
    and exact: "eigh_exact Cov (eigvals0, eigvecs0)"
    and ev: "ev = pca_sorted_eigvals eigvals0" and cv: "cumvar = pca_cumvar ev"
  shows "\<exists>eigvals_k eigvecs_k mu k.
           weighted_pca eigh ((n, m), X) weights var_threshold = Inr (eigvals_k, eigvecs_k, mu, k)
         \<and> 1 \<le> k \<and> k \<le> m
         \<and> (\<forall>j < k - 1. cumvar ! j < var_threshold)
         \<and> ((\<exists>j < m. var_threshold \<le> cumvar ! j) \<longrightarrow> var_threshold \<le> cumvar ! (k - 1))
         \<and> ((\<forall>j < m. cumvar ! j < var_threshold) \<longrightarrow> k = m)
         \<and> eigvals_k = map (\<lambda>e. max e (pca_eps_reg (sum_list ev))) (take k ev)
         \<and> eigvecs_k = take_columns k (pca_sorted_eigvecs eigvals0 eigvecs0)
         \<and> (\<forall>j < k. is_eigenpair Cov (ev ! j) (column eigvecs_k j))"
proof -
  define k where "k = max 1 (min (np_searchsorted cumvar var_threshold + 1) m)"
  have lenev: "length eigvals0 = m"
    using exact by (simp add: eigh_exact_def cov pca_sigma_shape)
  have nn: "\<forall>lam \<in> set eigvals0. 0 \<le> lam"
    using exact unfolding cov by (rule eigh_exact_nonneg [OF len nonneg])
  then have nn': "\<forall>e \<in> set ev. 0 \<le> e"
    by (simp add: ev set_pca_sorted_eigvals)
  have srt: "sorted cumvar" unfolding cv using nn' by (rule sorted_pca_cumvar)
  have lencv: "length cumvar = m"
    by (simp add: cv ev length_pca_cumvar length_pca_sorted_eigvals lenev)
  have "0 \<le> sum_list ev" using nn' by (intro sum_list_nonneg) simp
  then have tot: "sum_list (pca_sorted_eigvals eigvals0) + 1 / 10 ^ 16 \<noteq> 0"
    by (simp add: ev add_nonneg_eq_0_iff)
  have res: "weighted_pca eigh ((n, m), X) weights var_threshold =
      Inr (map (\<lambda>e. max e (pca_eps_reg (sum_list ev))) (take k ev),
           take_columns k (pca_sorted_eigvecs eigvals0 eigvecs0),
           weighted_mean ((n, m), X) (normalized weights), k)"
    unfolding k_def cv ev
    by (rule weighted_pca_result [where eigh = eigh, OF len pos eig [unfolded cov] tot])
  note sel = select_k_sorted [OF srt lencv cols k_def]
  have pairs: "\<forall>j < k. is_eigenpair Cov (ev ! j) (column (take_columns k (pca_sorted_eigvecs eigvals0 eigvecs0)) j)"
  proof (intro allI impI)
    fix j assume "j < k"
    moreover from this sel(2) have "j < length eigvals0" by (simp add: lenev)
    ultimately show "is_eigenpair Cov (ev ! j) (column (take_columns k (pca_sorted_eigvecs eigvals0 eigvecs0)) j)"
      unfolding ev by (rule leading_pairs [OF exact])
  qed
  show ?thesis
    by (intro exI conjI) (rule res, rule sel, rule sel, rule sel, rule sel, rule sel, rule refl, rule refl, rule pairs)
qed


text \<open>The theorem at two samples of two features with equal weights.\<close>

theorem weighted_pca_component_count_witness:
  "length [1, 1 :: real] = 2 \<and> sum_list [1, 1 :: real] \<noteq> 0 \<and> (1::nat) \<le> 2
   \<and> eigh_exact (pca_sigma example_X (normalized [1, 1]) (weighted_mean example_X (normalized [1, 1])))
         ([0, 1], ((2, 2), [[0, 1], [1, 0]]))
   \<and> (\<exists>eigvals_k eigvecs_k mu k.
         weighted_pca example_eigh example_X [1, 1] var_threshold_default = Inr (eigvals_k, eigvecs_k, mu, k)
       \<and> 1 \<le> k \<and> k \<le> 2
       \<and> eigvals_k = map (\<lambda>e. max e (pca_eps_reg (sum_list (pca_sorted_eigvals [0, 1]))))
                        (take k (pca_sorted_eigvals [0, 1])))"
proof -
  let ?Cov = "pca_sigma ((2, 2), [[0, 0], [2, 0]]) (normalized [1, 1])
      (weighted_mean ((2, 2), [[0, 0], [2, 0]]) (normalized [1, 1]))"
  have len: "length [1, 1 :: real] = 2" by simp
  have nonneg: "\<forall>x \<in> set [1, 1 :: real]. 0 \<le> x" by simp
  have pos: "sum_list [1, 1 :: real] \<noteq> 0" by simp
  have cols: "(1::nat) \<le> 2" by simp
  have eig: "example_eigh ?Cov = Inr ([0, 1], ((2, 2), [[0, 1], [1, 0]]))"
    by (simp add: example_eigh_def)
  have exact: "eigh_exact ?Cov ([0, 1], ((2, 2), [[0, 1], [1, 0]]))"
    using example_exact by (simp add: example_sigma [unfolded example_X_def])
  from weighted_pca_component_count [where eigh = example_eigh
      and var_threshold = var_threshold_default, OF len nonneg pos cols refl eig exact refl refl]
  have "\<exists>eigvals_k eigvecs_k mu k.
         weighted_pca example_eigh ((2, 2), [[0, 0], [2, 0]]) [1, 1] var_threshold_default
           = Inr (eigvals_k, eigvecs_k, mu, k)
       \<and> 1 \<le> k \<and> k \<le> 2
       \<and> eigvals_k = map (\<lambda>e. max e (pca_eps_reg (sum_list (pca_sorted_eigvals [0, 1]))))
                        (take k (pca_sorted_eigvals [0, 1]))"
    by blast
  with len pos cols exact show ?thesis by (simp add: example_X_def)
qed

text \<open>
  The claim as stated fails on a constant history: the covariance is zero, its
  eigenvalue is 0, so \<open>cumvar = [0]\<close> never reaches 0.95; \<open>weighted_pca\<close> returns \<open>K = 1\<close>
  with \<open>cumvar[K - 1] = 0 < 0.95\<close>, and the eigenvalue it returns is the floor \<open>1e-8\<close>, not
  the leading eigenvalue 0.
\<close>

theorem weighted_pca_component_count_counterexample:
  "eigh_exact (pca_sigma constant_X (normalized [1, 1]) (weighted_mean constant_X (normalized [1, 1])))
         ([0], ((1, 1), [[1]]))
   \<and> weighted_pca zero_eigh constant_X [1, 1] var_threshold_default
        = Inr ([1 / 10 ^ 8], ((1, 1), [[1]]), [1], 1)
   \<and> pca_cumvar (pca_sorted_eigvals [0]) = [0]
   \<and> \<not> var_threshold_default \<le> pca_cumvar (pca_sorted_eigvals [0]) ! (1 - 1)
   \<and> take 1 (pca_sorted_eigvals [0]) = [0]"
proof -
  have "weighted_pca zero_eigh constant_X [1, 1] var_threshold_default
        = Inr ([1 / 10 ^ 8], ((1, 1), [[1]]), [1], 1)"
    by (simp add: weighted_pca_def constant_X_def np_average_axis0_def normalized_def
       weighted_mean_def zero_eigh_def bind_err_def zero_sorted zero_cumvar
       var_threshold_default_def zero_search pca_sorted_eigvecs_def np_argsort_def
       take_columns_def pca_eps_reg_def upt_rec)
  then show ?thesis
    using zero_exact
    by (simp add: constant_sigma zero_sorted zero_cumvar var_threshold_default_def)
qed

text \<open>
  Claim C4. For a daily tensor of shape \<open>[n_years, n_days, n_vars]\<close> with
  \<open>n_days \<ge> 2W + 1\<close>, \<open>build_state_vectors\<close> returns a tensor of shape
  \<open>[n_years, n_days - 2W, (2W + 1) * n_vars]\<close> whose entry for year \<open>y\<close> and valid-day
  index \<open>j\<close> is the concatenation of the daily aggregates \<open>X_raw[y, j .. j + 2W]\<close>, in
  day order and then variable order: element \<open>t * n_vars + v\<close> is variable \<open>v\<close> of day
  \<open>j + t\<close>. The valid-day index \<open>j\<close> is center day \<open>j + W\<close>, so the \<open>W\<close> days at either
  boundary are the center of no state vector.
\<close>

theorem build_state_vectors_windows:
  assumes wf: "wf_array3 ((n_years, n_days, n_vars), X)" and days: "2 * W + 1 \<le> n_days"
  shows "\<exists>S. build_state_vectors ((n_years, n_days, n_vars), X) W =
            Inr ((n_years, n_days - 2 * W, (2 * W + 1) * n_vars), S)
       \<and> wf_array3 ((n_years, n_days - 2 * W, (2 * W + 1) * n_vars), S)
       \<and> (\<forall>y < n_years. \<forall>j < n_days - 2 * W.
             S ! y ! j = concat (map (\<lambda>t. X ! y ! (j + t)) [0 ..< 2 * W + 1])
           \<and> (\<forall>t < 2 * W + 1. \<forall>v < n_vars. S ! y ! j ! (t * n_vars + v) = X ! y ! (j + t) ! v))"
proof -
  define win where "win = 2 * W + 1"
  define n where "n = n_days - 2 * W"
  define S where "S = map (\<lambda>y. map (\<lambda>j. concat (py_slice j (j + win) (X ! y))) [0 ..< n]) [0 ..< n_years]"
  have len: "length X = n_years"
    using wf by (simp add: wf_array3_def)
  have ylen: "length (X ! y) = n_days" if "y < n_years" for y
  proof -
    have "X ! y \<in> set X" using that len by simp
    then show ?thesis using wf by (auto simp: wf_array3_def)
  qed
  have dlen: "length (X ! y ! d) = n_vars" if "y < n_years" "d < n_days" for y d
  proof -
    have "X ! y \<in> set X" using that(1) len by simp
    then have "\<forall>day \<in> set (X ! y). length day = n_vars"
      using wf by (auto simp: wf_array3_def)
    moreover have "X ! y ! d \<in> set (X ! y)" using that ylen [of y] by simp
    ultimately show ?thesis by blast
  qed
  have bound: "j + win \<le> n_days" if "j < n" for j
    using that days by (simp add: n_def win_def)
  have res: "build_state_vectors ((n_years, n_days, n_vars), X) W =
            Inr ((n_years, n, win * n_vars), S)"
  proof -
    have "2 * W \<le> n_days" using days by simp
    from build_state_vectors_eq [OF len this, of n_vars]
    show ?thesis by (simp only: S_def n_def win_def add.assoc)
  qed
  have slice: "py_slice j (j + win) (X ! y) = map (\<lambda>t. X ! y ! (j + t)) [0 ..< win]"
    if "y < n_years" "j < n" for y j
    using bound [OF that(2)] ylen [OF that(1)] by (intro py_slice_nth) simp
  have entry: "S ! y ! j = concat (map (\<lambda>t. X ! y ! (j + t)) [0 ..< win])"
    if "y < n_years" "j < n" for y j
    using that by (simp add: S_def slice)
  have uniform: "\<forall>xs \<in> set (map (\<lambda>t. X ! y ! (j + t)) [0 ..< win]). length xs = n_vars"
    if "y < n_years" "j < n" for y j
  proof
    fix xs assume "xs \<in> set (map (\<lambda>t. X ! y ! (j + t)) [0 ..< win])"
    then obtain t where "t < win" "xs = X ! y ! (j + t)" by auto
    then show "length xs = n_vars"
      using dlen [OF that(1), of "j + t"] bound [OF that(2)] by simp
  qed
  have elem: "S ! y ! j ! (t * n_vars + v) = X ! y ! (j + t) ! v"
    if "y < n_years" "j < n" "t < win" "v < n_vars" for y j t v
  proof -
    have "concat (map (\<lambda>t. X ! y ! (j + t)) [0 ..< win]) ! (t * n_vars + v)
        = map (\<lambda>t. X ! y ! (j + t)) [0 ..< win] ! t ! v"
      using that by (intro nth_concat_uniform uniform) simp_all
    then show ?thesis using that by (simp add: entry)
  qed
  have Slen: "length S = n_years" and Srow: "\<And>y. y < n_years \<Longrightarrow> length (S ! y) = n"
    by (simp_all add: S_def)
  have Scell: "length (S ! y ! j) = win * n_vars" if "y < n_years" "j < n" for y j
    using length_concat_uniform [OF uniform [OF that]] by (simp add: entry [OF that])
  have wfS: "wf_array3 ((n_years, n, win * n_vars), S)"
    unfolding wf_array3_def prod.case
  proof (intro conjI ballI)
    show "length S = n_years" by (rule Slen)
  next
    fix yr assume "yr \<in> set S"
    then obtain y where y: "y < n_years" "yr = S ! y"
      using Slen by (auto simp: in_set_conv_nth)
    then show "length yr = n" using Srow by simp
    fix day assume "day \<in> set yr"
    then obtain j where j: "j < n" "day = yr ! j"
      using y Srow [of y] by (auto simp: in_set_conv_nth)
    then show "length day = win * n_vars" using Scell [of y j] y by simp
  qed
  have all: "\<forall>y < n_years. \<forall>j < n.
             S ! y ! j = concat (map (\<lambda>t. X ! y ! (j + t)) [0 ..< win])
           \<and> (\<forall>t < win. \<forall>v < n_vars. S ! y ! j ! (t * n_vars + v) = X ! y ! (j + t) ! v)"
  proof (intro allI impI conjI)
    fix y j assume "y < n_years" "j < n"
    then show "S ! y ! j = concat (map (\<lambda>t. X ! y ! (j + t)) [0 ..< win])" by (rule entry)
  next
    fix y j t v assume "y < n_years" "j < n" "t < win" "v < n_vars"
    then show "S ! y ! j ! (t * n_vars + v) = X ! y ! (j + t) ! v" by (rule elem)
  qed
  note final = conjI [OF res conjI [OF wfS all]]
  show ?thesis
    by (rule exI [of _ S]) (rule final [unfolded n_def win_def])
qed


text \<open>The theorem at two years of four days and two variables, with \<open>W = 1\<close>.\<close>

theorem build_state_vectors_windows_witness:
  "wf_array3 ((2, 4, 2), [[[1, 2], [3, 4], [5, 6], [7, 8]], [[11, 12], [13, 14], [15, 16], [17, 18]]])
   \<and> 2 * 1 + 1 \<le> (4::nat)
   \<and> (\<exists>S. build_state_vectors
          ((2, 4, 2), [[[1, 2], [3, 4], [5, 6], [7, 8]], [[11, 12], [13, 14], [15, 16], [17, 18]]]) 1
          = Inr ((2, 2, 6), S)
        \<and> S ! 0 ! 0 = [1, 2, 3, 4, 5, 6] \<and> S ! 1 ! 1 = [13, 14, 15, 16, 17, 18])"
proof -
  let ?X = "[[[1, 2], [3, 4], [5, 6], [7, 8]], [[11, 12], [13, 14], [15, 16], [17, 18::real]]]"
  have wf: "wf_array3 ((2, 4, 2), ?X)" by (simp add: wf_array3_def)
  have days: "2 * 1 + 1 \<le> (4::nat)" by simp
  have upt3: "[0 ..< 3] = [0, 1, 2::nat]" by (simp add: upt_rec)
  from build_state_vectors_windows [OF wf days]
  obtain S where S: "build_state_vectors ((2, 4, 2), ?X) 1 = Inr ((2, 4 - 2 * 1, (2 * 1 + 1) * 2), S)"
    and ent: "\<forall>y<2. \<forall>j<4 - 2 * 1. S ! y ! j = concat (map (\<lambda>t. ?X ! y ! (j + t)) [0 ..< 2 * 1 + 1])"
    by blast
  have "S ! 0 ! 0 = [1, 2, 3, 4, 5, 6]" using ent [rule_format, of 0 0] by (simp add: upt3)
  moreover have "S ! 1 ! 1 = [13, 14, 15, 16, 17, 18]" using ent [rule_format, of 1 1] by (simp add: upt3)
  moreover have "build_state_vectors ((2, 4, 2), ?X) 1 = Inr ((2, 2, 6), S)" using S by simp
  ultimately show ?thesis using wf days by blast
qed

text \<open>
  Claim C5. Whenever \<open>generate_ensemble\<close> returns an ensemble (for a mean vector of the
  state dimension), it has \<open>N_mc\<close> samples, and every sample satisfies the documented
  bounds: precipitation (0), wind speed (4) and irradiance (5) are at least 0,
  temperature (1) and dew point (6) lie in \<open>[-80, 60]\<close>, humidity (2) and cloud fraction
  (3) in \<open>[0, 100]\<close>. Sample \<open>i\<close> is the slice \<open>[W * n_vars, (W + 1) * n_vars)\<close> of the
  reconstructed state vector \<open>mu + V_k z\<^sub>i\<close>, clipped, and clipping leaves a value within
  its bounds unchanged.
\<close>

theorem generate_ensemble_clipped:
  assumes res: "generate_ensemble gauss g eigvals_k ((d, k), V) mu n_vars W N_mc
                  = (Inr ((n, c), samples), g')"
    and mu: "length mu = d"
  shows "n = N_mc \<and> length samples = N_mc \<and> 7 \<le> c
       \<and> (\<forall>s \<in> set samples. length s = c
             \<and> 0 \<le> s ! 0 \<and> - 80 \<le> s ! 1 \<and> s ! 1 \<le> 60 \<and> 0 \<le> s ! 2 \<and> s ! 2 \<le> 100
             \<and> 0 \<le> s ! 3 \<and> s ! 3 \<le> 100 \<and> 0 \<le> s ! 4 \<and> 0 \<le> s ! 5
             \<and> - 80 \<le> s ! 6 \<and> s ! 6 \<le> 60)
       \<and> (\<forall>i < N_mc. samples ! i =
             clip_sample (py_slice (W * n_vars) (W * n_vars + n_vars)
               (reconstruct ((d, k), V) mu (snd (fst (pc_samples gauss g eigvals_k N_mc)) ! i))))
       \<and> (\<forall>row vi. vi < length row \<and> within_bounds vi (row ! vi) \<longrightarrow> clip_sample row ! vi = row ! vi)"
proof -
  define c0 where "c0 = min (W * n_vars + n_vars) d - min (W * n_vars) d"
  define center where "center = map (\<lambda>i. py_slice (W * n_vars) (W * n_vars + n_vars)
       (reconstruct ((d, k), V) mu (snd (fst (pc_samples gauss g eigvals_k N_mc)) ! i))) [0 ..< N_mc]"
  have nonneg: "\<forall>e \<in> set eigvals_k. 0 \<le> e"
  proof (rule ccontr)
    assume "\<not> (\<forall>e \<in> set eigvals_k. 0 \<le> e)"
    then have "\<exists>e \<in> set eigvals_k. e < 0" by (auto simp: not_le)
    then have "generate_ensemble gauss g eigvals_k ((d, k), V) mu n_vars W N_mc = (Inl FloatNonFinite, g)"
      by (simp add: generate_ensemble_def)
    with res show False by simp
  qed
  have k: "length eigvals_k = k"
  proof (rule ccontr)
    assume "length eigvals_k \<noteq> k"
    then have "fst (generate_ensemble gauss g eigvals_k ((d, k), V) mu n_vars W N_mc) = Inl ValueError"
      using nonneg
      by (auto simp: generate_ensemble_def pc_samples_def np_matmul_def np_transpose_def
          bind_err_def not_less [symmetric] split: prod.splits)
    with res show False by simp
  qed
  have ac: "apply_constraints ((N_mc, c0), center) = Inr ((n, c), samples)"
    using res unfolding generate_ensemble_eq [OF mu k nonneg] c0_def center_def by simp
  have rowlen: "\<forall>row \<in> set center. length row = c0"
    by (auto simp: center_def c0_def length_py_slice reconstruct_def)
  have c7: "7 \<le> c0"
  proof (rule ccontr)
    assume "\<not> 7 \<le> c0"
    then have "apply_constraints ((N_mc, c0), center) = Inl IndexError"
      by (intro apply_constraints_IndexError) simp
    with ac show False by simp
  qed
  have eq: "n = N_mc" "c = c0" "samples = map clip_sample center"
    using ac unfolding apply_constraints_eq [OF c7 rowlen] by simp_all
  have len: "length samples = N_mc" by (simp add: eq center_def)
  have bounds: "\<forall>s \<in> set samples. length s = c
             \<and> 0 \<le> s ! 0 \<and> - 80 \<le> s ! 1 \<and> s ! 1 \<le> 60 \<and> 0 \<le> s ! 2 \<and> s ! 2 \<le> 100
             \<and> 0 \<le> s ! 3 \<and> s ! 3 \<le> 100 \<and> 0 \<le> s ! 4 \<and> 0 \<le> s ! 5
             \<and> - 80 \<le> s ! 6 \<and> s ! 6 \<le> 60"
  proof
    fix s assume "s \<in> set samples"
    then obtain row where row: "row \<in> set center" "s = clip_sample row" by (auto simp: eq)
    then have l: "length row = c0" using rowlen by simp
    then have "7 \<le> length row" using c7 by simp
    from clip_sample_bounds [OF this] l show "length s = c
             \<and> 0 \<le> s ! 0 \<and> - 80 \<le> s ! 1 \<and> s ! 1 \<le> 60 \<and> 0 \<le> s ! 2 \<and> s ! 2 \<le> 100
             \<and> 0 \<le> s ! 3 \<and> s ! 3 \<le> 100 \<and> 0 \<le> s ! 4 \<and> 0 \<le> s ! 5
             \<and> - 80 \<le> s ! 6 \<and> s ! 6 \<le> 60"
      by (simp add: row(2) length_clip_sample eq(2))
  qed
  have slices: "\<forall>i < N_mc. samples ! i =
             clip_sample (py_slice (W * n_vars) (W * n_vars + n_vars)
               (reconstruct ((d, k), V) mu (snd (fst (pc_samples gauss g eigvals_k N_mc)) ! i)))"
    by (simp add: eq center_def)
  have unchanged: "\<forall>row vi. vi < length row \<and> within_bounds vi (row ! vi) \<longrightarrow> clip_sample row ! vi = row ! vi"
    by (simp add: clip_sample_nth clip_value_within)
  show ?thesis
    by (rule conjI [OF eq(1) conjI [OF len conjI [OF _ conjI [OF bounds conjI [OF slices unchanged]]]]])
       (simp add: eq(2) c7)
qed


text \<open>The theorem at one draw: precipitation and temperature are clipped, the rest is kept.\<close>

theorem generate_ensemble_clipped_witness:
  "generate_ensemble counter_gauss 1 [1] example_basis example_mu 7 0 1
     = (Inr ((1, 7), [[0, 60, 50, 50, 3, 100, 10]]), 2)
   \<and> length example_mu = 7
   \<and> reconstruct example_basis example_mu (snd (fst (pc_samples counter_gauss 1 [1] 1)) ! 0)
       = [- 1 / 2, 121 / 2, 50, 50, 3, 100, 10]
   \<and> clip_sample (py_slice (0 * 7) (0 * 7 + 7)
        (reconstruct example_basis example_mu (snd (fst (pc_samples counter_gauss 1 [1] 1)) ! 0)))
       = [0, 60, 50, 50, 3, 100, 10]"
proof -
  have res: "generate_ensemble counter_gauss 1 [1] ((7, 1), [[1], [1], [0], [0], [0], [0], [0]])
      example_mu 7 0 1 = (Inr ((1, 7), [[0, 60, 50, 50, 3, 100, 10]]), 2)"
    using example_ensemble by (simp add: example_basis_def)
  have mu: "length example_mu = 7" by (simp add: example_mu_def)
  from generate_ensemble_clipped [OF res mu]
  have "\<forall>i < 1. [[0, 60, 50, 50, 3, 100, 10]] ! i =
      clip_sample (py_slice (0 * 7) (0 * 7 + 7)
        (reconstruct ((7, 1), [[1], [1], [0], [0], [0], [0], [0]]) example_mu
           (snd (fst (pc_samples counter_gauss 1 [1] 1)) ! i)))"
    by blast
  then have slice: "clip_sample (py_slice (0 * 7) (0 * 7 + 7)
        (reconstruct example_basis example_mu (snd (fst (pc_samples counter_gauss 1 [1] 1)) ! 0)))
       = [0, 60, 50, 50, 3, 100, 10]"
    by (simp add: example_basis_def)
  have rec: "reconstruct example_basis example_mu (snd (fst (pc_samples counter_gauss 1 [1] 1)) ! 0)
       = [- 1 / 2, 121 / 2, 50, 50, 3, 100, 10]"
    by (simp add: reconstruct_def example_basis_def example_mu_def pc_samples_def counter_gauss_def
        upt_rec)
  from example_ensemble mu rec slice show ?thesis by blast
qed

text \<open>
  Claim C6. For non-empty lists of years and of days of the year, the year weights and the
  day weights returned by \<open>compute_weights\<close> are each positive everywhere and sum to 1,
  and their outer product \<open>W_combined\<close> is non-negative and sums to 1 (over the reals:
  rounding and underflow of \<open>exp\<close> are outside the model).
\<close>

theorem compute_weights_normalized:
  assumes "years \<noteq> []" and "doys \<noteq> []"
    and "compute_weights years target_year doys target_doy alpha_year alpha_day = (Wy, Wd, Wc)"
  shows "length Wy = length years \<and> length Wd = length doys
       \<and> (\<forall>w \<in> set Wy. 0 < w) \<and> sum_list Wy = 1
       \<and> (\<forall>w \<in> set Wd. 0 < w) \<and> sum_list Wd = 1
       \<and> Wc = np_outer Wy Wd
       \<and> (\<forall>r \<in> set Wc. \<forall>w \<in> set r. 0 \<le> w)
       \<and> sum_list (map sum_list Wc) = 1"
proof -
  define Y0 where "Y0 = map (\<lambda>d. exp (- alpha_year * real_of_int d)) (map (\<lambda>y. \<bar>y - target_year\<bar>) years)"
  define D0 where "D0 = map (\<lambda>d. exp (- alpha_day * real_of_int d)) (map (\<lambda>d. \<bar>d - target_doy\<bar>) doys)"
  have Wy: "Wy = map (\<lambda>x. x / sum_list Y0) Y0" and Wd: "Wd = map (\<lambda>x. x / sum_list D0) D0"
    and Wc: "Wc = np_outer Wy Wd"
  proof -
    have "compute_weights years target_year doys target_doy alpha_year alpha_day =
      (map (\<lambda>x. x / sum_list Y0) Y0, map (\<lambda>x. x / sum_list D0) D0,
       np_outer (map (\<lambda>x. x / sum_list Y0) Y0) (map (\<lambda>x. x / sum_list D0) D0))"
      unfolding compute_weights_def Let_def Y0_def D0_def ..
    with assms(3) show "Wy = map (\<lambda>x. x / sum_list Y0) Y0" "Wd = map (\<lambda>x. x / sum_list D0) D0"
      "Wc = np_outer Wy Wd" by auto
  qed
  have Ypos: "0 < sum_list Y0"
    unfolding Y0_def map_map using assms(1) by (intro sum_list_pos_exp) simp_all
  have Dpos: "0 < sum_list D0"
    unfolding D0_def map_map using assms(2) by (intro sum_list_pos_exp) simp_all
  have Yel: "\<forall>w \<in> set Y0. 0 < w" by (auto simp: Y0_def)
  have Del: "\<forall>w \<in> set D0. 0 < w" by (auto simp: D0_def)
  have 1: "\<forall>w \<in> set Wy. 0 < w" using Yel Ypos by (auto simp: Wy)
  have 2: "\<forall>w \<in> set Wd. 0 < w" using Del Dpos by (auto simp: Wd)
  have 3: "sum_list Wy = 1" unfolding Wy using Ypos by (intro sum_list_normalized) simp
  have 4: "sum_list Wd = 1" unfolding Wd using Dpos by (intro sum_list_normalized) simp
  have 5: "\<forall>r \<in> set Wc. \<forall>w \<in> set r. 0 \<le> w"
    using 1 2 by (auto simp: Wc np_outer_def intro!: mult_nonneg_nonneg less_imp_le)
  have 6: "sum_list (map sum_list Wc) = 1" by (simp add: Wc sum_list_outer 3 4)
  have 7: "length Wy = length years" "length Wd = length doys" by (simp_all add: Wy Wd Y0_def D0_def)
  show ?thesis using 1 2 3 4 5 6 7 Wc by blast
qed

text \<open>The theorem at two history years and three days of the year.\<close>

theorem compute_weights_normalized_witness:
  "[2019, 2020] \<noteq> ([] :: int list) \<and> [277, 278, 279] \<noteq> ([] :: int list)
   \<and> sum_list (fst (compute_weights [2019, 2020] 2021 [277, 278, 279] 278 alpha_year_default alpha_day_default)) = 1
   \<and> sum_list (fst (snd (compute_weights [2019, 2020] 2021 [277, 278, 279] 278 alpha_year_default alpha_day_default))) = 1
   \<and> sum_list (map sum_list (snd (snd (compute_weights [2019, 2020] 2021 [277, 278, 279] 278 alpha_year_default alpha_day_default)))) = 1"
proof -
  let ?r = "compute_weights [2019, 2020] 2021 [277, 278, 279] 278 alpha_year_default alpha_day_default"
  have a: "[2019, 2020] \<noteq> ([] :: int list)" and b: "[277, 278, 279] \<noteq> ([] :: int list)"
    by simp_all
  have c: "?r = (fst ?r, fst (snd ?r), snd (snd ?r))" by simp
  from compute_weights_normalized [OF a b c] a b show ?thesis by blast
qed

text \<open>
  Claim C7. In \<open>weighted_pca\<close>, for non-negative weights (as many as samples, with a sum
  that is not zero, so that the normalised weights exist) and an exact eigensolver, the
  eigenvalues of the symmetrised weighted covariance are non-negative, after sorting they
  are non-increasing, and the cumulative explained-variance ratio is non-decreasing; it
  is the array in which \<open>weighted_pca\<close> searches the threshold for the component count
  it returns.
\<close>

theorem weighted_pca_spectrum:
  assumes len: "length weights = n" and nonneg: "\<forall>x \<in> set weights. 0 \<le> x"
    and pos: "sum_list weights \<noteq> 0"
    and cov: "Cov = pca_sigma ((n, m), X) (normalized weights)
                      (weighted_mean ((n, m), X) (normalized weights))"
    and eig: "eigh Cov = Inr (eigvals0, eigvecs0)"
    and exact: "eigh_exact Cov (eigvals0, eigvecs0)"
  shows "(\<forall>lam \<in> set eigvals0. 0 \<le> lam)
       \<and> sorted_wrt (\<lambda>x y. y \<le> x) (pca_sorted_eigvals eigvals0)
       \<and> sorted (pca_cumvar (pca_sorted_eigvals eigvals0))
       \<and> (\<exists>eigvals_k eigvecs_k mu k.
             weighted_pca eigh ((n, m), X) weights var_threshold = Inr (eigvals_k, eigvecs_k, mu, k)
           \<and> k = max 1 (min (np_searchsorted (pca_cumvar (pca_sorted_eigvals eigvals0)) var_threshold + 1) m))"
proof -
  have nn: "\<forall>lam \<in> set eigvals0. 0 \<le> lam"
    using exact unfolding cov by (rule eigh_exact_nonneg [OF len nonneg])
  then have nn': "\<forall>e \<in> set (pca_sorted_eigvals eigvals0). 0 \<le> e"
    by (simp add: set_pca_sorted_eigvals)
  have desc: "sorted_wrt (\<lambda>x y. y \<le> x) (pca_sorted_eigvals eigvals0)"
    by (rule pca_sorted_eigvals_descending)
  have cum: "sorted (pca_cumvar (pca_sorted_eigvals eigvals0))"
    using nn' by (rule sorted_pca_cumvar)
  have "0 \<le> sum_list (pca_sorted_eigvals eigvals0)"
    using nn' by (intro sum_list_nonneg) simp
  then have tot: "sum_list (pca_sorted_eigvals eigvals0) + 1 / 10 ^ 16 \<noteq> 0"
    by (simp add: add_nonneg_eq_0_iff)
  note res = weighted_pca_result [where eigh = eigh and X = X and m = m
      and var_threshold = var_threshold, OF len pos eig [unfolded cov] tot]
  show ?thesis
    by (intro conjI nn desc cum exI) (rule res, rule refl)
qed


text \<open>The theorem at two samples of two features with equal weights.\<close>

theorem weighted_pca_spectrum_witness:
  "length [1, 1 :: real] = 2 \<and> sum_list [1, 1 :: real] \<noteq> 0
   \<and> eigh_exact (pca_sigma example_X (normalized [1, 1]) (weighted_mean example_X (normalized [1, 1])))
         ([0, 1], ((2, 2), [[0, 1], [1, 0]]))
   \<and> sorted_wrt (\<lambda>x y. y \<le> x) (pca_sorted_eigvals [0, 1])
   \<and> pca_sorted_eigvals [0, 1] = [1, 0]
   \<and> sorted (pca_cumvar (pca_sorted_eigvals [0, 1]))"
proof -
  let ?Cov = "pca_sigma ((2, 2), [[0, 0], [2, 0]]) (normalized [1, 1])
      (weighted_mean ((2, 2), [[0, 0], [2, 0]]) (normalized [1, 1]))"
  have len: "length [1, 1 :: real] = 2" by simp
  have nonneg: "\<forall>x \<in> set [1, 1 :: real]. 0 \<le> x" by simp
  have pos: "sum_list [1, 1 :: real] \<noteq> 0" by simp
  have eig: "example_eigh ?Cov = Inr ([0, 1], ((2, 2), [[0, 1], [1, 0]]))"
    by (simp add: example_eigh_def)
  have exact: "eigh_exact ?Cov ([0, 1], ((2, 2), [[0, 1], [1, 0]]))"
    using example_exact by (simp add: example_sigma [unfolded example_X_def])
  from weighted_pca_spectrum [where eigh = example_eigh, OF len nonneg pos refl eig exact]
  have "sorted_wrt (\<lambda>x y. y \<le> x) (pca_sorted_eigvals [0, 1])"
    and "sorted (pca_cumvar (pca_sorted_eigvals [0, 1]))"
    by blast+
  with len pos exact example_sorted show ?thesis by (simp add: example_X_def)
qed

text \<open>
  Claim C10. For every \<open>predictions\<close> holding the means of temperature, precipitation,
  cloud cover, wind speed and humidity (the precipitation probability being optional),
  \<open>classify_weather\<close> returns, without raising, a non-empty classification: a member of
  the closed vocabulary when the wind mean is at most 15, and \<open>windy_\<close> followed by a
  member of it when the wind mean exceeds 15; the prefix is there exactly in that case.
\<close>

theorem classify_weather_closed_set:
  assumes "predictions ''temperature'' = Some dt" "dt ''mean'' = Some (PyFloat temp)"
    and "predictions ''precipitation'' = Some dp" "dp ''mean'' = Some (PyFloat precip)"
    and "dp ''probability'' = None \<or> (\<exists>q. dp ''probability'' = Some (PyFloat q))"
    and "predictions ''cloud_cover'' = Some dc" "dc ''mean'' = Some (PyFloat clouds)"
    and "predictions ''wind_speed'' = Some dw" "dw ''mean'' = Some (PyFloat wind)"
    and "predictions ''humidity'' = Some dh" "dh ''mean'' = Some (PyFloat humidity)"
  shows "\<exists>c d. classify_weather predictions = Inr (c, d) \<and> c \<noteq> []
      \<and> (if wind > 15 then (\<exists>b \<in> set base_classifications. c = ''windy_'' @ b)
          else c \<in> set base_classifications)
      \<and> (c \<in> set base_classifications \<longleftrightarrow> \<not> wind > 15)"
proof -
  define q where "q = (case dp ''probability'' of None \<Rightarrow> 0 | Some v \<Rightarrow> (case v of PyFloat x \<Rightarrow> x | PyStr s \<Rightarrow> 0))"
  define r where "r = special_conditions humidity temp
              (wind_modifier wind (primary_weather temp precip q clouds))"
  have prob: "get_probability predictions = Inr q"
    using assms(3,5) by (auto simp: get_probability_def getitem_def bind_err_def as_number_def q_def)
  have means: "get_mean predictions ''temperature'' = Inr temp"
    "get_mean predictions ''precipitation'' = Inr precip"
    "get_mean predictions ''cloud_cover'' = Inr clouds"
    "get_mean predictions ''wind_speed'' = Inr wind"
    "get_mean predictions ''humidity'' = Inr humidity"
    using assms by (simp_all add: get_mean_def getitem_def bind_err_def as_number_def)
  have res: "classify_weather predictions = Inr (fst r, snd r)"
    by (simp add: classify_weather_def means prob bind_err_def r_def Let_def)
  have fst_r: "fst r = (if wind > 15 then ''windy_'' @ fst (primary_weather temp precip q clouds)
      else fst (primary_weather temp precip q clouds))"
    by (simp add: r_def special_conditions_fst wind_modifier_def)
  have base: "fst (primary_weather temp precip q clouds) \<in> set base_classifications"
    by (rule primary_weather_base)
  have ne: "fst r \<noteq> []" using base by (auto simp: fst_r base_classifications_def)
  have shape: "if wind > 15 then (\<exists>b \<in> set base_classifications. fst r = ''windy_'' @ b)
          else fst r \<in> set base_classifications"
    using base by (auto simp: fst_r)
  have iff: "fst r \<in> set base_classifications \<longleftrightarrow> \<not> wind > 15"
    using base windy_not_base by (auto simp: fst_r)
  show ?thesis using res ne shape iff by blast
qed

text \<open>The theorem at a windy day with light rain.\<close>

theorem classify_weather_closed_set_witness:
  "example_predictions ''wind_speed'' = Some (stats_of 20) \<and> stats_of 20 ''mean'' = Some (PyFloat 20)
   \<and> (\<exists>c d. classify_weather example_predictions = Inr (c, d) \<and> c \<noteq> []
        \<and> (\<exists>b \<in> set base_classifications. c = ''windy_'' @ b)
        \<and> c \<notin> set base_classifications)"
proof -
  have h: "example_predictions ''temperature'' = Some (stats_of 12)"
    "stats_of 12 ''mean'' = Some (PyFloat 12)"
    "example_predictions ''precipitation'' = Some ((stats_of 7)(''probability'' \<mapsto> PyFloat (4 / 10)))"
    "((stats_of 7)(''probability'' \<mapsto> PyFloat (4 / 10))) ''mean'' = Some (PyFloat 7)"
    "((stats_of 7)(''probability'' \<mapsto> PyFloat (4 / 10))) ''probability'' = None
      \<or> (\<exists>q. ((stats_of 7)(''probability'' \<mapsto> PyFloat (4 / 10))) ''probability'' = Some (PyFloat q))"
    "example_predictions ''cloud_cover'' = Some (stats_of 90)"
    "stats_of 90 ''mean'' = Some (PyFloat 90)"
    "example_predictions ''wind_speed'' = Some (stats_of 20)"
    "stats_of 20 ''mean'' = Some (PyFloat 20)"
    "example_predictions ''humidity'' = Some (stats_of 50)"
    "stats_of 50 ''mean'' = Some (PyFloat 50)"
    by (simp_all add: example_predictions_def stats_of_def del: divide_eq_eq_numeral1 eq_divide_eq_numeral1)
  from classify_weather_closed_set [OF h] h(8,9) show ?thesis by simp
qed

end
